theory Spec2Isabelle
  imports Main "HOL-Library.Multiset"
begin

section \<open>Python values and errors\<close>

text \<open>
  The development embeds \<^verbatim>\<open>transformer/Dataset.py\<close>: the classes \<^verbatim>\<open>Vocab\<close>,
  \<^verbatim>\<open>Batch\<close> and \<^verbatim>\<open>Dataset\<close>. Python integers are \<open>int\<close>; lengths and list
  positions obtained from \<^verbatim>\<open>len\<close> and \<^verbatim>\<open>range\<close> are \<open>nat\<close>. Every exception the
  source can raise is a value of \<open>error\<close>, returned on the left of a sum.
\<close>

datatype error =
    AssertionError string
  | KeyError string
  | IndexError
  | ValueError
  | ZeroDivisionError

text \<open>\<^verbatim>\<open>xs[i]\<close> for an index \<open>i \<ge> 0\<close>: out of range raises \<^verbatim>\<open>IndexError\<close>.\<close>

definition getitem_list :: "'a list \<Rightarrow> nat \<Rightarrow> error + 'a" where
  "getitem_list xs i = (if i < length xs then Inr (xs ! i) else Inl IndexError)"

text \<open>
  \<^verbatim>\<open>xs[i]\<close> for any Python integer: an index from \<open>-len(xs)\<close> up to \<open>-1\<close> reads
  from the end of the list, anything else outside \<open>0 .. len(xs)-1\<close> raises.
\<close>

definition getitem_int :: "'a list \<Rightarrow> int \<Rightarrow> error + 'a" where
  "getitem_int xs i =
     (if 0 \<le> i \<and> i < int (length xs) then Inr (xs ! nat i)
      else if i < 0 \<and> - int (length xs) \<le> i then Inr (xs ! nat (int (length xs) + i))
      else Inl IndexError)"

text \<open>A list comprehension whose element expression may raise: the first error wins.\<close>

fun mapM_e :: "('a \<Rightarrow> error + 'b) \<Rightarrow> 'a list \<Rightarrow> error + 'b list" where
  "mapM_e f [] = Inr []"
| "mapM_e f (x # xs) =
     (case f x of
        Inl e \<Rightarrow> Inl e
      | Inr y \<Rightarrow> (case mapM_e f xs of Inl e \<Rightarrow> Inl e | Inr ys \<Rightarrow> Inr (y # ys)))"

text \<open>\<^verbatim>\<open>max(xs)\<close> of a list: \<^verbatim>\<open>ValueError\<close> on the empty list.\<close>

fun py_max :: "nat list \<Rightarrow> error + nat" where
  "py_max [] = Inl ValueError"
| "py_max (x # xs) = Inr (fold max xs x)"

section \<open>Vocab\<close>

text \<open>
  \<^verbatim>\<open>Vocab.__init__(fvoc)\<close> reads the lines of the vocabulary file; the model takes the
  list of lines (\<^verbatim>\<open>fd.read().splitlines()\<close>). \<^verbatim>\<open>tok_to_idx\<close> is the dictionary
  \<^verbatim>\<open>{k:i for i,k in enumerate(idx_to_tok)}\<close>: a later line overwrites an earlier equal one.
\<close>

record Vocab =
  idx_pad :: int
  str_pad :: string
  idx_unk :: int
  str_unk :: string
  idx_bos :: int
  str_bos :: string
  idx_eos :: int
  str_eos :: string
  tok_to_idx :: "string \<rightharpoonup> int"
  idx_to_tok :: "string list"

definition dict_of_tokens :: "string list \<Rightarrow> (string \<rightharpoonup> int)" where
  "dict_of_tokens toks =
     foldl (\<lambda>m (i, k). m(k \<mapsto> int i)) Map.empty (List.enumerate 0 toks)"

text \<open>
  One \<^verbatim>\<open>assert self.tok_to_idx[s] == i, msg\<close>: the dictionary lookup raises
  \<^verbatim>\<open>KeyError\<close> when \<open>s\<close> is no key, the assertion fails when the id differs.
\<close>

definition assert_marker :: "(string \<rightharpoonup> int) \<Rightarrow> string \<Rightarrow> int \<Rightarrow> error + unit" where
  "assert_marker d s i =
     (case d s of
        None \<Rightarrow> Inl (KeyError s)
      | Some j \<Rightarrow> if j = i then Inr () else Inl (AssertionError (s @ '' must exist in vocab'')))"

text \<open>The attributes \<^verbatim>\<open>__init__\<close> sets before its assertions.\<close>

definition Vocab_fields :: "string list \<Rightarrow> Vocab" where
  "Vocab_fields lines =
     \<lparr> idx_pad = 0, str_pad = ''<pad>'',
       idx_unk = 1, str_unk = ''<unk>'',
       idx_bos = 2, str_bos = ''<bos>'',
       idx_eos = 3, str_eos = ''<eos>'',
       tok_to_idx = dict_of_tokens lines,
       idx_to_tok = lines \<rparr>"

definition Vocab_init :: "string list \<Rightarrow> error + Vocab" where
  "Vocab_init lines =
     (let v = Vocab_fields lines
      in case assert_marker (tok_to_idx v) (str_pad v) 0 of Inl e \<Rightarrow> Inl e | Inr _ \<Rightarrow>
         (case assert_marker (tok_to_idx v) (str_unk v) 1 of Inl e \<Rightarrow> Inl e | Inr _ \<Rightarrow>
         (case assert_marker (tok_to_idx v) (str_bos v) 2 of Inl e \<Rightarrow> Inl e | Inr _ \<Rightarrow>
         (case assert_marker (tok_to_idx v) (str_eos v) 3 of Inl e \<Rightarrow> Inl e | Inr _ \<Rightarrow>
            Inr v))))"

definition Vocab_len :: "Vocab \<Rightarrow> nat" where
  "Vocab_len v = length (idx_to_tok v)"

text \<open>
  \<^verbatim>\<open>__contains__\<close> and \<^verbatim>\<open>__getitem__\<close> dispatch on \<^verbatim>\<open>type(s) == int\<close>: an entry is
  an id or a token string.
\<close>

datatype entry = Idx int | Tok string

fun Vocab_contains :: "Vocab \<Rightarrow> entry \<Rightarrow> bool" where
  "Vocab_contains v (Idx s) = (s < int (length (idx_to_tok v)))"
| "Vocab_contains v (Tok s) = (tok_to_idx v s \<noteq> None)"

text \<open>The string branch of \<^verbatim>\<open>__getitem__\<close>: the id of a token, the unknown id when absent.\<close>

definition Vocab_tok_id :: "Vocab \<Rightarrow> string \<Rightarrow> int" where
  "Vocab_tok_id v s = (case tok_to_idx v s of Some i \<Rightarrow> i | None \<Rightarrow> idx_unk v)"

fun Vocab_getitem :: "Vocab \<Rightarrow> entry \<Rightarrow> error + entry" where
  "Vocab_getitem v (Idx s) =
     (case getitem_int (idx_to_tok v) s of Inl e \<Rightarrow> Inl e | Inr t \<Rightarrow> Inr (Tok t))"
| "Vocab_getitem v (Tok s) = Inr (Idx (Vocab_tok_id v s))"

text \<open>The four reserved marker strings, in the order of their ids.\<close>

definition markers :: "string list" where
  "markers = [''<pad>'', ''<unk>'', ''<bos>'', ''<eos>'']"


section \<open>Batch\<close>

text \<open>
  A \<^verbatim>\<open>Batch\<close> object has \<^verbatim>\<open>batch_size\<close> and \<^verbatim>\<open>batch_type\<close> after
  \<^verbatim>\<open>__init__\<close>; \<^verbatim>\<open>Pos\<close> and \<^verbatim>\<open>max_lens\<close> exist only after the first \<^verbatim>\<open>reset\<close>.
  The record \<open>Batch_cfg\<close> is the object before, \<open>Batch\<close> the object after a reset, so
  \<^verbatim>\<open>add\<close> and \<^verbatim>\<open>__len__\<close> are typed for objects that have been reset.
\<close>

record Batch_cfg =
  batch_size :: int
  batch_type :: string

record Batch = Batch_cfg +
  Pos :: "nat list"
  max_lens :: "int list"

definition Batch_init :: "int \<Rightarrow> string \<Rightarrow> error + Batch_cfg" where
  "Batch_init bs bt =
     (if bt = ''sentences'' \<or> bt = ''tokens''
      then Inr \<lparr> batch_size = bs, batch_type = bt \<rparr>
      else Inl (AssertionError ''Bad -batch_type option''))"

definition Batch_reset :: "'a Batch_cfg_scheme \<Rightarrow> nat \<Rightarrow> Batch" where
  "Batch_reset b n_files =
     \<lparr> batch_size = batch_size b, batch_type = batch_type b,
       Pos = [], max_lens = replicate n_files 0 \<rparr>"

text \<open>
  The token check of \<^verbatim>\<open>add\<close>:
  \<^verbatim>\<open>for i,l in enumerate(lens): if max(self.max_lens[i],l) * (len(self.Pos)+1) > self.batch_size: return False\<close>.
  The arguments are \<^verbatim>\<open>max_lens\<close>, \<^verbatim>\<open>lens\<close>, \<^verbatim>\<open>len(self.Pos)+1\<close> and \<^verbatim>\<open>batch_size\<close>; the
  result is whether some side exceeds. \<^verbatim>\<open>self.max_lens[i]\<close> raises when \<^verbatim>\<open>lens\<close> is the
  longer list.
\<close>

fun exceeds :: "int list \<Rightarrow> int list \<Rightarrow> int \<Rightarrow> int \<Rightarrow> error + bool" where
  "exceeds ms [] n cap = Inr False"
| "exceeds [] (l # ls) n cap = Inl IndexError"
| "exceeds (m # ms) (l # ls) n cap =
     (if max m l * n > cap then Inr True else exceeds ms ls n cap)"

text \<open>\<^verbatim>\<open>for i,l in enumerate(lens): self.max_lens[i] = max(self.max_lens[i],l)\<close>.\<close>

fun update_max_lens :: "int list \<Rightarrow> int list \<Rightarrow> error + int list" where
  "update_max_lens ms [] = Inr ms"
| "update_max_lens [] (l # ls) = Inl IndexError"
| "update_max_lens (m # ms) (l # ls) =
     (case update_max_lens ms ls of Inl e \<Rightarrow> Inl e | Inr ms' \<Rightarrow> Inr (max m l # ms'))"

text \<open>\<^verbatim>\<open>add\<close> returns its boolean and the object as it has left it.\<close>

definition Batch_add :: "Batch \<Rightarrow> nat \<Rightarrow> int list \<Rightarrow> error + (bool \<times> Batch)" where
  "Batch_add b pos lens =
     (case (if batch_type b = ''tokens''
            then exceeds (max_lens b) lens (int (length (Pos b)) + 1) (batch_size b)
            else Inr (int (length (Pos b)) = batch_size b)) of
        Inl e \<Rightarrow> Inl e
      | Inr rejected \<Rightarrow>
          if rejected then Inr (False, b)
          else (case update_max_lens (max_lens b) lens of
                  Inl e \<Rightarrow> Inl e
                | Inr ms \<Rightarrow> Inr (True, b\<lparr> Pos := Pos b @ [pos], max_lens := ms \<rparr>)))"

definition Batch_len :: "Batch \<Rightarrow> nat" where
  "Batch_len b = length (Pos b)"

section \<open>Dataset\<close>

text \<open>
  The fields of a \<^verbatim>\<open>Dataset\<close>. \<^verbatim>\<open>batch_size\<close>, \<^verbatim>\<open>batch_type\<close>, \<^verbatim>\<open>idx_bos\<close> and
  \<^verbatim>\<open>idx_eos\<close> carry the prefix \<open>ds_\<close>, the plain names being fields of \<open>Batch\<close> and
  \<open>Vocab\<close>. \<^verbatim>\<open>File_Line_Idx[n][pos]\<close> is the id sequence of line \<open>pos\<close> of side \<open>n\<close>.
\<close>

record Dataset =
  shard_size :: int
  ds_batch_size :: int
  ds_batch_type :: string
  max_length :: int
  ds_idx_bos :: "int list"
  ds_idx_eos :: "int list"
  File_Line_Idx :: "int list list list"

text \<open>
  \<^verbatim>\<open>Dataset.__init__\<close>. The model takes, for every file of \<^verbatim>\<open>ftxts\<close>, its lines already
  split into tokens (\<^verbatim>\<open>l.split() for l in fd.read().splitlines()\<close>); every file is
  readable. \<^verbatim>\<open>flatten_count\<close> comes from \<^verbatim>\<open>tools.Tools\<close> and is a parameter: it returns
  the pair \<^verbatim>\<open>(n_tok, n_unk)\<close>, and the logging call divides by \<^verbatim>\<open>n_tok\<close>.
\<close>

fun read_files ::
  "(int list list \<Rightarrow> int list \<Rightarrow> int \<times> int) \<Rightarrow> Vocab list \<Rightarrow> nat \<Rightarrow> string list list list
     \<Rightarrow> Dataset \<Rightarrow> error + Dataset" where
  "read_files flatten_count vocs i [] ds = Inr ds"
| "read_files flatten_count vocs i (txt # ftxts) ds =
     (case getitem_list vocs i of
        Inl e \<Rightarrow> Inl e
      | Inr voc \<Rightarrow>
          (let Line_Idx = map (map (Vocab_tok_id voc)) txt;
               ds' = ds\<lparr> ds_idx_bos := ds_idx_bos ds @ [idx_bos voc],
                         ds_idx_eos := ds_idx_eos ds @ [idx_eos voc],
                         File_Line_Idx := File_Line_Idx ds @ [Line_Idx] \<rparr>
           in case flatten_count Line_Idx [idx_unk voc] of (n_tok, n_unk) \<Rightarrow>
             if n_tok = 0 then Inl ZeroDivisionError
             else if length (File_Line_Idx ds' ! 0) \<noteq> length (last (File_Line_Idx ds'))
               then Inl (AssertionError ''Non parallel corpus in dataset'')
             else read_files flatten_count vocs (Suc i) ftxts ds'))"

definition Dataset_init ::
  "(int list list \<Rightarrow> int list \<Rightarrow> int \<times> int) \<Rightarrow> string list list list \<Rightarrow> Vocab list
     \<Rightarrow> int \<Rightarrow> int \<Rightarrow> string \<Rightarrow> int \<Rightarrow> error + Dataset" where
  "Dataset_init flatten_count ftxts vocs shard_size' batch_size' batch_type' max_length' =
     read_files flatten_count vocs 0 ftxts
       \<lparr> shard_size = shard_size', ds_batch_size = batch_size', ds_batch_type = batch_type',
         max_length = max_length', ds_idx_bos = [], ds_idx_eos = [], File_Line_Idx = [] \<rparr>"

subsection \<open>Building a shard\<close>

text \<open>\<^verbatim>\<open>self.File_Line_Idx[n][pos]\<close>.\<close>

definition line_at :: "int list list list \<Rightarrow> nat \<Rightarrow> nat \<Rightarrow> error + int list" where
  "line_at F n pos =
     (case getitem_list F n of Inl e \<Rightarrow> Inl e | Inr side \<Rightarrow> getitem_list side pos)"

text \<open>\<^verbatim>\<open>[len(self.File_Line_Idx[n][pos]) for n in range(n_files)]\<close>, \<^verbatim>\<open>n_files\<close> being
  \<^verbatim>\<open>len(self.File_Line_Idx)\<close>.\<close>

definition side_lens :: "int list list list \<Rightarrow> nat \<Rightarrow> error + nat list" where
  "side_lens F pos =
     mapM_e (\<lambda>side. case getitem_list side pos of Inl e \<Rightarrow> Inl e | Inr l \<Rightarrow> Inr (length l)) F"

text \<open>The filter of the shard loop: whether \<^verbatim>\<open>continue\<close> skips the position.\<close>

definition too_long :: "Dataset \<Rightarrow> nat \<Rightarrow> error + bool" where
  "too_long ds pos =
     (if max_length ds \<noteq> 0
      then (case side_lens (File_Line_Idx ds) pos of
              Inl e \<Rightarrow> Inl e
            | Inr ls \<Rightarrow>
                (case py_max ls of
                   Inl e \<Rightarrow> Inl e
                 | Inr maxl \<Rightarrow> Inr (int maxl > max_length ds)))
      else Inr False)"

text \<open>The loop \<^verbatim>\<open>for pos in shard\<close>: the pair \<^verbatim>\<open>(shard_pos, shard_len)\<close>.\<close>

fun build_shard :: "Dataset \<Rightarrow> nat list \<Rightarrow> error + (nat list \<times> nat list)" where
  "build_shard ds [] = Inr ([], [])"
| "build_shard ds (pos # shard) =
     (case too_long ds pos of
        Inl e \<Rightarrow> Inl e
      | Inr skip \<Rightarrow>
          if skip then build_shard ds shard
          else (case line_at (File_Line_Idx ds) 0 pos of
                  Inl e \<Rightarrow> Inl e
                | Inr l \<Rightarrow>
                    (case build_shard ds shard of
                       Inl e \<Rightarrow> Inl e
                     | Inr (shard_pos, shard_len) \<Rightarrow>
                         Inr (pos # shard_pos, length l # shard_len))))"

text \<open>
  \<^verbatim>\<open>shard_pos[np.argsort(shard_len)]\<close>. \<^verbatim>\<open>np.argsort\<close> is numpy's and a parameter of the
  model; indexing an array with an index out of bounds raises.
\<close>

definition sort_shard :: "(nat list \<Rightarrow> nat list) \<Rightarrow> nat list \<Rightarrow> nat list \<Rightarrow> error + nat list" where
  "sort_shard argsort shard_pos shard_len = mapM_e (getitem_list shard_pos) (argsort shard_len)"

subsection \<open>Packing\<close>

text \<open>
  One round of \<^verbatim>\<open>for pos in shard_pos\<close>, on the state \<^verbatim>\<open>(b, batchs)\<close>:
  \<^verbatim>\<open>
  lens = [len(self.File_Line_Idx[n][pos])+2 for n in range(n_files)]
  if not b.add(pos,lens):
      if len(b):
          batchs.append(b.Pos)
          b.reset(n_files)
      b.add(pos,lens) ### add current example (may be discarded if it does not fit)
  \<close>
\<close>

definition pack_step ::
  "Dataset \<Rightarrow> nat \<Rightarrow> Batch \<times> nat list list \<Rightarrow> nat \<Rightarrow> error + (Batch \<times> nat list list)" where
  "pack_step ds n_files st pos =
     (case st of (b, batchs) \<Rightarrow>
       (case side_lens (File_Line_Idx ds) pos of
          Inl e \<Rightarrow> Inl e
        | Inr ls \<Rightarrow>
            (let lens = map (\<lambda>l. int l + 2) ls
             in case Batch_add b pos lens of
                  Inl e \<Rightarrow> Inl e
                | Inr (added, b1) \<Rightarrow>
                    if added then Inr (b1, batchs)
                    else (case (if Batch_len b1 \<noteq> 0
                                then (Batch_reset b1 n_files, batchs @ [Pos b1])
                                else (b1, batchs)) of
                            (b2, batchs2) \<Rightarrow>
                              (case Batch_add b2 pos lens of
                                 Inl e \<Rightarrow> Inl e
                               | Inr (_, b3) \<Rightarrow> Inr (b3, batchs2))))))"

fun pack ::
  "Dataset \<Rightarrow> nat \<Rightarrow> Batch \<times> nat list list \<Rightarrow> nat list \<Rightarrow> error + (Batch \<times> nat list list)" where
  "pack ds n_files st [] = Inr st"
| "pack ds n_files st (pos # shard_pos) =
     (case pack_step ds n_files st pos of
        Inl e \<Rightarrow> Inl e
      | Inr st' \<Rightarrow> pack ds n_files st' shard_pos)"

text \<open>
  The batches of one shard: a new \<^verbatim>\<open>Batch\<close>, reset, the packing loop, and the flush of
  the accumulator after the loop.
\<close>

definition build_batchs :: "Dataset \<Rightarrow> nat \<Rightarrow> nat list \<Rightarrow> error + nat list list" where
  "build_batchs ds n_files shard_pos =
     (case Batch_init (ds_batch_size ds) (ds_batch_type ds) of
        Inl e \<Rightarrow> Inl e
      | Inr b0 \<Rightarrow>
          (case pack ds n_files (Batch_reset b0 n_files, []) shard_pos of
             Inl e \<Rightarrow> Inl e
           | Inr (b, batchs) \<Rightarrow> Inr (if Batch_len b \<noteq> 0 then batchs @ [Pos b] else batchs)))"

subsection \<open>Yielding\<close>

text \<open>\<^verbatim>\<open>[self.idx_bos[n]] + self.File_Line_Idx[n][pos] + [self.idx_eos[n]]\<close>.\<close>

definition wrap_line :: "Dataset \<Rightarrow> nat \<Rightarrow> nat \<Rightarrow> error + int list" where
  "wrap_line ds n pos =
     (case getitem_list (ds_idx_bos ds) n of
        Inl e \<Rightarrow> Inl e
      | Inr bos \<Rightarrow>
          (case line_at (File_Line_Idx ds) n pos of
             Inl e \<Rightarrow> Inl e
           | Inr l \<Rightarrow>
               (case getitem_list (ds_idx_eos ds) n of
                  Inl e \<Rightarrow> Inl e
                | Inr eos \<Rightarrow> Inr ([bos] @ l @ [eos]))))"

definition wrap_batch :: "Dataset \<Rightarrow> nat \<Rightarrow> nat list \<Rightarrow> error + int list list list" where
  "wrap_batch ds n_files batch = mapM_e (\<lambda>n. mapM_e (wrap_line ds n) batch) [0..<n_files]"

text \<open>The loop \<^verbatim>\<open>for i in idx_batchs\<close>: the list of the pairs it yields.\<close>

definition yield_batchs ::
  "Dataset \<Rightarrow> nat \<Rightarrow> nat list list \<Rightarrow> nat list \<Rightarrow> error + (nat list \<times> int list list list) list" where
  "yield_batchs ds n_files batchs idx_batchs =
     mapM_e (\<lambda>i. case getitem_list batchs i of
                   Inl e \<Rightarrow> Inl e
                 | Inr batch \<Rightarrow>
                     (case wrap_batch ds n_files batch of
                        Inl e \<Rightarrow> Inl e
                      | Inr idxs_all \<Rightarrow> Inr (batch, idxs_all)))
       idx_batchs"

subsection \<open>The iteration\<close>

text \<open>
  \<^verbatim>\<open>np.random.shuffle\<close> permutes a list in place with numpy's global generator. The model
  takes the shuffle as a parameter on an explicit generator state \<open>'g\<close>: it returns the
  shuffled list and the next state. The body of \<^verbatim>\<open>for s,shard in enumerate(shards)\<close>:
\<close>

definition iter_shard ::
  "('g \<Rightarrow> nat list \<Rightarrow> nat list \<times> 'g) \<Rightarrow> (nat list \<Rightarrow> nat list) \<Rightarrow> Dataset \<Rightarrow> nat \<Rightarrow> 'g \<Rightarrow> nat list
     \<Rightarrow> error + ((nat list \<times> int list list list) list \<times> 'g)" where
  "iter_shard shuffle argsort ds n_files g shard =
     (case build_shard ds shard of
        Inl e \<Rightarrow> Inl e
      | Inr (shard_pos, shard_len) \<Rightarrow>
          (case sort_shard argsort shard_pos shard_len of
             Inl e \<Rightarrow> Inl e
           | Inr sorted_pos \<Rightarrow>
               (case build_batchs ds n_files sorted_pos of
                  Inl e \<Rightarrow> Inl e
                | Inr batchs \<Rightarrow>
                    (case shuffle g [0..<length batchs] of
                       (idx_batchs, g') \<Rightarrow>
                         (case yield_batchs ds n_files batchs idx_batchs of
                            Inl e \<Rightarrow> Inl e
                          | Inr ys \<Rightarrow> Inr (ys, g'))))))"

fun iter_shards ::
  "('g \<Rightarrow> nat list \<Rightarrow> nat list \<times> 'g) \<Rightarrow> (nat list \<Rightarrow> nat list) \<Rightarrow> Dataset \<Rightarrow> nat \<Rightarrow> 'g
     \<Rightarrow> nat list list \<Rightarrow> error + ((nat list \<times> int list list list) list \<times> 'g)" where
  "iter_shards shuffle argsort ds n_files g [] = Inr ([], g)"
| "iter_shards shuffle argsort ds n_files g (shard # shards) =
     (case iter_shard shuffle argsort ds n_files g shard of
        Inl e \<Rightarrow> Inl e
      | Inr (ys, g') \<Rightarrow>
          (case iter_shards shuffle argsort ds n_files g' shards of
             Inl e \<Rightarrow> Inl e
           | Inr (zs, g'') \<Rightarrow> Inr (ys @ zs, g'')))"

text \<open>
  \<^verbatim>\<open>[Pos[i:i+shard_size] for i in range(0, n_lines, shard_size)]\<close> for a positive
  \<^verbatim>\<open>shard_size\<close>, from the index \<open>i\<close> on.
\<close>

function shards_from :: "nat \<Rightarrow> nat \<Rightarrow> nat \<Rightarrow> 'a list \<Rightarrow> 'a list list" where
  "shards_from i step n_lines Pos' =
     (if step = 0 \<or> n_lines \<le> i then []
      else take step (drop i Pos') # shards_from (i + step) step n_lines Pos')"
  by pat_completeness auto
termination
  by (relation "measure (\<lambda>(i, step, n_lines, Pos'). n_lines - i)") auto

text \<open>
  \<^verbatim>\<open>Dataset.__iter__\<close>, run to its end: the dataset as the pass leaves it (the pass
  stores \<^verbatim>\<open>n_lines\<close> in a zero \<^verbatim>\<open>shard_size\<close>), the list of the pairs yielded, and the
  generator state. An exception ends the pass: the result is then the exception alone.
  \<^verbatim>\<open>range\<close> raises \<^verbatim>\<open>ValueError\<close> on a zero step and is empty on a negative one.
\<close>

definition Dataset_iter ::
  "('g \<Rightarrow> nat list \<Rightarrow> nat list \<times> 'g) \<Rightarrow> (nat list \<Rightarrow> nat list) \<Rightarrow> Dataset \<Rightarrow> 'g
     \<Rightarrow> error + (Dataset \<times> (nat list \<times> int list list list) list \<times> 'g)" where
  "Dataset_iter shuffle argsort ds g =
     (if \<not> length (File_Line_Idx ds) > 0 then Inl (AssertionError ''Empty dataset'')
      else
        (let n_files = length (File_Line_Idx ds);
             n_lines = length (File_Line_Idx ds ! 0)
         in case shuffle g [0..<n_lines] of
              (Pos', g1) \<Rightarrow>
                (let ds1 = (if shard_size ds = 0 then ds\<lparr> shard_size := int n_lines \<rparr> else ds)
                 in if shard_size ds1 = 0 then Inl ValueError
                    else (case iter_shards shuffle argsort ds1 n_files g1
                                 (if shard_size ds1 < 0 then []
                                  else shards_from 0 (nat (shard_size ds1)) n_lines Pos') of
                            Inl e \<Rightarrow> Inl e
                          | Inr (ys, g2) \<Rightarrow> Inr (ds1, ys, g2)))))"

section \<open>Contracts and predicates\<close>

text \<open>
  What numpy guarantees of the two library calls: \<^verbatim>\<open>np.random.shuffle\<close> leaves a
  permutation of its argument, \<^verbatim>\<open>np.argsort\<close> returns a permutation of the indices
  along which the keys ascend. The default kind of \<^verbatim>\<open>np.argsort\<close> is
  \<^verbatim>\<open>quicksort\<close>, which numpy documents as not stable: the contract fixes no order
  among equal keys.
\<close>

definition shuffle_ok :: "('g \<Rightarrow> nat list \<Rightarrow> nat list \<times> 'g) \<Rightarrow> bool" where
  "shuffle_ok shuffle \<longleftrightarrow> (\<forall>g xs. mset (fst (shuffle g xs)) = mset xs)"

definition argsort_ok :: "(nat list \<Rightarrow> nat list) \<Rightarrow> bool" where
  "argsort_ok argsort \<longleftrightarrow>
     (\<forall>ks. mset (argsort ks) = mset [0..<length ks] \<and> sorted (map (\<lambda>i. ks ! i) (argsort ks)))"

text \<open>A stable argsort: equal keys keep the order of their indices.\<close>

definition argsort_stable :: "nat list \<Rightarrow> nat list" where
  "argsort_stable ks = sort_key (\<lambda>i. ks ! i) [0..<length ks]"

text \<open>An argsort that meets the contract and reverses the indices of equal keys.\<close>

definition argsort_reversing :: "nat list \<Rightarrow> nat list" where
  "argsort_reversing ks = sort_key (\<lambda>i. ks ! i) (rev [0..<length ks])"

text \<open>Two shuffles on a generator without state: the identity and the reversal.\<close>

definition shuffle_id :: "unit \<Rightarrow> nat list \<Rightarrow> nat list \<times> unit" where
  "shuffle_id g xs = (xs, g)"

definition shuffle_rev :: "unit \<Rightarrow> nat list \<Rightarrow> nat list \<times> unit" where
  "shuffle_rev g xs = (rev xs, g)"

text \<open>
  The number of sides and of examples of a dataset, and what \<^verbatim>\<open>__init__\<close> establishes:
  one begin and one end id per side, and the same number of lines on every side.
\<close>

definition n_files :: "Dataset \<Rightarrow> nat" where
  "n_files ds = length (File_Line_Idx ds)"

definition n_lines :: "Dataset \<Rightarrow> nat" where
  "n_lines ds = length (File_Line_Idx ds ! 0)"

definition parallel :: "Dataset \<Rightarrow> bool" where
  "parallel ds \<longleftrightarrow>
     length (ds_idx_bos ds) = n_files ds \<and> length (ds_idx_eos ds) = n_files ds \<and>
     list_all (\<lambda>side. length side = n_lines ds) (File_Line_Idx ds)"

text \<open>The raw length of an example on one side.\<close>

definition raw_len :: "Dataset \<Rightarrow> nat \<Rightarrow> nat \<Rightarrow> nat" where
  "raw_len ds n pos = length (File_Line_Idx ds ! n ! pos)"

text \<open>
  The specification's filter: a position is kept when \<^verbatim>\<open>max_length\<close> is zero or its
  raw length is at most \<^verbatim>\<open>max_length\<close> on every side.
\<close>

definition kept :: "Dataset \<Rightarrow> nat \<Rightarrow> bool" where
  "kept ds pos \<longleftrightarrow>
     max_length ds = 0 \<or>
     list_all (\<lambda>side. int (length (side ! pos)) \<le> max_length ds) (File_Line_Idx ds)"

text \<open>
  An example fits a batch of its own: under the token policy its padded length (raw
  length + 2) is at most the capacity on every side; under the sentence policy the
  capacity is not zero.
\<close>

definition fits :: "Dataset \<Rightarrow> nat \<Rightarrow> bool" where
  "fits ds pos \<longleftrightarrow>
     (if ds_batch_type ds = ''tokens''
      then list_all (\<lambda>side. int (length (side ! pos)) + 2 \<le> ds_batch_size ds) (File_Line_Idx ds)
      else ds_batch_size ds \<noteq> 0)"

text \<open>The padded size of a batch on side \<open>n\<close>: (longest raw length + 2) times its size.\<close>

definition padded_size :: "Dataset \<Rightarrow> nat \<Rightarrow> nat list \<Rightarrow> int" where
  "padded_size ds n batch =
     (int (Max ((\<lambda>pos. raw_len ds n pos) ` set batch)) + 2) * int (length batch)"

section \<open>Invariants of the packing loop\<close>

text \<open>
  What holds of the accumulator between two rounds of the packing loop: it carries the
  dataset's capacity and policy, one running maximum per side, zero maxima while it is
  empty, every accepted position in range and below the maxima with its padded lengths,
  and, once it holds an example, the capacity bound of its policy.
\<close>

definition acc_inv :: "Dataset \<Rightarrow> Batch \<Rightarrow> bool" where
  "acc_inv ds b \<longleftrightarrow>
     batch_size b = ds_batch_size ds \<and> batch_type b = ds_batch_type ds \<and>
     length (max_lens b) = n_files ds \<and>
     (Pos b = [] \<longrightarrow> max_lens b = replicate (n_files ds) 0) \<and>
     (\<forall>p\<in>set (Pos b). p < n_lines ds \<and>
        (\<forall>n<n_files ds. int (raw_len ds n p) + 2 \<le> max_lens b ! n)) \<and>
     (ds_batch_type ds = ''tokens'' \<longrightarrow> Pos b \<noteq> [] \<longrightarrow>
        (\<forall>n<n_files ds. max_lens b ! n * int (length (Pos b)) \<le> ds_batch_size ds)) \<and>
     (ds_batch_type ds \<noteq> ''tokens'' \<longrightarrow> 0 \<le> ds_batch_size ds \<longrightarrow>
        int (length (Pos b)) \<le> ds_batch_size ds)"

text \<open>
  What holds of every finished batch: it is not empty, its positions are in range, and
  it respects the capacity of the policy.
\<close>

definition batch_ok :: "Dataset \<Rightarrow> nat list \<Rightarrow> bool" where
  "batch_ok ds batch \<longleftrightarrow>
     batch \<noteq> [] \<and> (\<forall>p\<in>set batch. p < n_lines ds) \<and>
     (ds_batch_type ds = ''tokens'' \<longrightarrow>
        (\<forall>n<n_files ds. padded_size ds n batch \<le> ds_batch_size ds)) \<and>
     (ds_batch_type ds \<noteq> ''tokens'' \<longrightarrow> 0 \<le> ds_batch_size ds \<longrightarrow>
        int (length batch) \<le> ds_batch_size ds)"

section \<open>The specification's scenario\<close>

text \<open>
  Two sides of two lines, \<^verbatim>\<open>a b\<close>, \<^verbatim>\<open>b\<close> and \<^verbatim>\<open>x y\<close>, \<^verbatim>\<open>y\<close>, with the vocabularies
  \<^verbatim>\<open><pad> <unk> <bos> <eos> a b\<close> and \<^verbatim>\<open><pad> <unk> <bos> <eos> x y\<close>. In the examples
  \<^verbatim>\<open>flatten_count\<close> counts the ids of the lines and those among them that are listed.
\<close>

definition ex_flatten_count :: "int list list \<Rightarrow> int list \<Rightarrow> int \<times> int" where
  "ex_flatten_count ll lc =
     (int (length (concat ll)), int (length (filter (\<lambda>x. x \<in> set lc) (concat ll))))"

definition ex_lines_src :: "string list" where
  "ex_lines_src = [''<pad>'', ''<unk>'', ''<bos>'', ''<eos>'', ''a'', ''b'']"

definition ex_lines_tgt :: "string list" where
  "ex_lines_tgt = [''<pad>'', ''<unk>'', ''<bos>'', ''<eos>'', ''x'', ''y'']"

definition ex_ftxts :: "string list list list" where
  "ex_ftxts = [[[''a'', ''b''], [''b'']], [[''x'', ''y''], [''y'']]]"

definition ex_dataset :: "int \<Rightarrow> int \<Rightarrow> string \<Rightarrow> int \<Rightarrow> Dataset" where
  "ex_dataset ss bs bt ml =
     \<lparr> shard_size = ss, ds_batch_size = bs, ds_batch_type = bt, max_length = ml,
       ds_idx_bos = [2, 2], ds_idx_eos = [3, 3],
       File_Line_Idx = [[[4, 5], [5]], [[4, 5], [5]]] \<rparr>"

section \<open>Facts about the vocabulary\<close>

lemma dict_of_tokens_snoc:
  "dict_of_tokens (xs @ [x]) = (dict_of_tokens xs)(x \<mapsto> int (length xs))"
  by (simp add: dict_of_tokens_def enumerate_append_eq)

lemma dict_of_tokens_Nil: "dict_of_tokens [] = Map.empty"
  by (simp add: dict_of_tokens_def)

lemma dict_of_tokens_Some:
  "dict_of_tokens xs t = Some i \<Longrightarrow> 0 \<le> i \<and> nat i < length xs \<and> xs ! nat i = t"
proof (induction xs arbitrary: i rule: rev_induct)
  case Nil
  then show ?case by (simp add: dict_of_tokens_Nil)
next
  case (snoc x xs)
  show ?case
  proof (cases "t = x")
    case True
    with snoc.prems show ?thesis by (auto simp: dict_of_tokens_snoc)
  next
    case False
    with snoc.prems have "dict_of_tokens xs t = Some i"
      by (simp add: dict_of_tokens_snoc)
    from snoc.IH [OF this] show ?thesis by (simp add: nth_append)
  qed
qed

lemma dict_of_tokens_None: "dict_of_tokens xs t = None \<longleftrightarrow> t \<notin> set xs"
  by (induction xs rule: rev_induct) (auto simp: dict_of_tokens_Nil dict_of_tokens_snoc)

lemma dict_of_tokens_last:
  "dict_of_tokens xs t = Some i \<Longrightarrow> t \<notin> set (drop (Suc (nat i)) xs)"
proof (induction xs arbitrary: i rule: rev_induct)
  case Nil
  then show ?case by simp
next
  case (snoc x xs)
  show ?case
  proof (cases "t = x")
    case True
    with snoc.prems show ?thesis by (auto simp: dict_of_tokens_snoc)
  next
    case False
    with snoc.prems have s: "dict_of_tokens xs t = Some i"
      by (simp add: dict_of_tokens_snoc)
    from dict_of_tokens_Some [OF s] have "nat i < length xs" by simp
    with snoc.IH [OF s] False show ?thesis by simp
  qed
qed

lemma dict_of_tokens_at:
  assumes "j < length xs" and "xs ! j \<notin> set (drop (Suc j) xs)"
  shows "dict_of_tokens xs (xs ! j) = Some (int j)"
proof -
  have "xs ! j \<in> set xs" using assms(1) by simp
  then obtain i where i: "dict_of_tokens xs (xs ! j) = Some i"
    using dict_of_tokens_None [of xs "xs ! j"] by auto
  from dict_of_tokens_Some [OF i] have b: "0 \<le> i" "nat i < length xs" "xs ! nat i = xs ! j"
    by simp_all
  have "\<not> nat i < j"
  proof
    assume lt: "nat i < j"
    have "xs ! j \<in> set (drop (Suc (nat i)) xs)"
      using lt assms(1) by (auto simp: in_set_conv_nth intro!: exI [of _ "j - Suc (nat i)"])
    with dict_of_tokens_last [OF i] show False by simp
  qed
  moreover have "\<not> j < nat i"
  proof
    assume lt: "j < nat i"
    have "xs ! nat i \<in> set (drop (Suc j) xs)"
      using lt b(2) by (auto simp: in_set_conv_nth intro!: exI [of _ "nat i - Suc j"])
    with assms(2) b(3) show False by simp
  qed
  ultimately have "nat i = j" by simp
  with b(1) i show ?thesis by simp
qed

lemma dict_of_tokens_append_notin:
  "t \<notin> set ys \<Longrightarrow> dict_of_tokens (xs @ ys) t = dict_of_tokens xs t"
proof (induction ys rule: rev_induct)
  case Nil
  then show ?case by simp
next
  case (snoc y ys)
  then show ?case
    using dict_of_tokens_snoc [of "xs @ ys" y] by simp
qed

lemma dict_of_tokens_append_in:
  "t \<in> set ys \<Longrightarrow> \<exists>i. dict_of_tokens (xs @ ys) t = Some i \<and> int (length xs) \<le> i"
proof (induction ys rule: rev_induct)
  case Nil
  then show ?case by simp
next
  case (snoc y ys)
  show ?case
  proof (cases "t = y")
    case True
    then show ?thesis using dict_of_tokens_snoc [of "xs @ ys" y] by simp
  next
    case False
    with snoc.prems have "t \<in> set ys" by simp
    from snoc.IH [OF this] False show ?thesis
      using dict_of_tokens_snoc [of "xs @ ys" y] by simp
  qed
qed

lemma dict_markers:
  "dict_of_tokens markers ''<pad>'' = Some 0"
  "dict_of_tokens markers ''<unk>'' = Some 1"
  "dict_of_tokens markers ''<bos>'' = Some 2"
  "dict_of_tokens markers ''<eos>'' = Some 3"
  by (simp_all add: dict_of_tokens_def markers_def)

lemma Vocab_init_Inr_iff:
  "(\<exists>v. Vocab_init lines = Inr v) \<longleftrightarrow>
     dict_of_tokens lines ''<pad>'' = Some 0 \<and> dict_of_tokens lines ''<unk>'' = Some 1 \<and>
     dict_of_tokens lines ''<bos>'' = Some 2 \<and> dict_of_tokens lines ''<eos>'' = Some 3"
  by (auto simp: Vocab_init_def Vocab_fields_def assert_marker_def Let_def
      split: option.splits sum.splits if_splits)

lemma Vocab_init_Inr_fields:
  "Vocab_init lines = Inr v \<Longrightarrow> v = Vocab_fields lines"
  by (auto simp: Vocab_init_def Let_def split: sum.splits)

lemma dict_Some_take:
  assumes "dict_of_tokens lines s = Some (int j)"
  shows "j < length lines \<and> lines ! j = s"
  using dict_of_tokens_Some [OF assms] by simp

lemma Vocab_init_Inr_take:
  assumes "Vocab_init lines = Inr v"
  shows "take 4 lines = markers \<and> set markers \<inter> set (drop 4 lines) = {}"
proof -
  from assms have d: "dict_of_tokens lines ''<pad>'' = Some (int 0)"
    "dict_of_tokens lines ''<unk>'' = Some (int 1)"
    "dict_of_tokens lines ''<bos>'' = Some (int 2)" "dict_of_tokens lines ''<eos>'' = Some (int 3)"
    using Vocab_init_Inr_iff [of lines] by auto
  have len: "3 < length lines" using dict_Some_take [OF d(4)] by simp
  have n: "lines ! 0 = ''<pad>''" "lines ! 1 = ''<unk>''" "lines ! 2 = ''<bos>''" "lines ! 3 = ''<eos>''"
    using dict_Some_take [OF d(1)] dict_Some_take [OF d(2)] dict_Some_take [OF d(3)]
      dict_Some_take [OF d(4)] by simp_all
  have t: "take 4 lines = markers"
    using len n by (auto simp: markers_def list_eq_iff_nth_eq less_Suc_eq numeral_nat)
  have l: "lines = markers @ drop 4 lines" using t append_take_drop_id [of 4 lines] by simp
  have "m \<notin> set (drop 4 lines)" if m: "m \<in> set markers" for m
  proof
    assume "m \<in> set (drop 4 lines)"
    from dict_of_tokens_append_in [OF this, of markers] l
    obtain i where "dict_of_tokens lines m = Some i" "4 \<le> i" by (auto simp: markers_def)
    with m d show False by (auto simp: markers_def)
  qed
  with t show ?thesis by auto
qed

lemma Vocab_init_take_Inr:
  assumes "take 4 lines = markers" and "set markers \<inter> set (drop 4 lines) = {}"
  shows "\<exists>v. Vocab_init lines = Inr v"
proof -
  have l: "lines = markers @ drop 4 lines"
    using assms(1) append_take_drop_id [of 4 lines] by simp
  have "dict_of_tokens lines m = dict_of_tokens markers m" if "m \<in> set markers" for m
    using that assms(2) dict_of_tokens_append_notin [of m "drop 4 lines" markers] l by auto
  then show ?thesis
    unfolding Vocab_init_Inr_iff using dict_markers by (simp add: markers_def)
qed

lemma Vocab_init_Inr_iff_markers:
  "(\<exists>v. Vocab_init lines = Inr v) \<longleftrightarrow>
     take 4 lines = markers \<and> set markers \<inter> set (drop 4 lines) = {}"
  using Vocab_init_Inr_take [of lines] Vocab_init_take_Inr [of lines] by blast

lemma distinct_markers_first:
  assumes "distinct lines" and "take 4 lines = markers"
  shows "set markers \<inter> set (drop 4 lines) = {}"
proof -
  have "distinct (take 4 lines @ drop 4 lines) = distinct lines"
    by (simp only: append_take_drop_id)
  with assms have "set (take 4 lines) \<inter> set (drop 4 lines) = {}"
    by (simp only: distinct_append) simp
  with assms(2) show ?thesis by simp
qed

text \<open>
  Claim C6. Construction raises for every list of lines that has fewer than four
  entries or whose first four entries are not the pad, unknown, begin and end markers in
  this order. On a list of distinct lines that starts with the four markers it succeeds:
  it returns the vocabulary of these lines, in which the markers have the ids 0, 1, 2
  and 3.
\<close>

theorem Vocab_init_markers:
  "(length lines < 4 \<or> take 4 lines \<noteq> markers \<longrightarrow> (\<exists>e. Vocab_init lines = Inl e)) \<and>
   (distinct lines \<and> take 4 lines = markers \<longrightarrow>
      Vocab_init lines = Inr (Vocab_fields lines) \<and>
      map (Vocab_tok_id (Vocab_fields lines)) markers = [0, 1, 2, 3])"
proof (intro conjI impI)
  assume bad: "length lines < 4 \<or> take 4 lines \<noteq> markers"
  have "length lines < 4 \<longrightarrow> take 4 lines \<noteq> markers"
    by (auto simp: markers_def dest: arg_cong [where f = length])
  with bad have "take 4 lines \<noteq> markers" by blast
  then have "\<not> (\<exists>v. Vocab_init lines = Inr v)"
    by (simp add: Vocab_init_Inr_iff_markers)
  then show "\<exists>e. Vocab_init lines = Inl e" by (cases "Vocab_init lines") simp_all
next
  assume good: "distinct lines \<and> take 4 lines = markers"
  then have "set markers \<inter> set (drop 4 lines) = {}" by (simp add: distinct_markers_first)
  with good obtain v where v: "Vocab_init lines = Inr v"
    using Vocab_init_Inr_iff_markers [of lines] by blast
  from Vocab_init_Inr_fields [OF v] v
  show "Vocab_init lines = Inr (Vocab_fields lines)" by simp
  from v have "dict_of_tokens lines ''<pad>'' = Some 0" "dict_of_tokens lines ''<unk>'' = Some 1"
    "dict_of_tokens lines ''<bos>'' = Some 2" "dict_of_tokens lines ''<eos>'' = Some 3"
    using Vocab_init_Inr_iff [of lines] by auto
  then show "map (Vocab_tok_id (Vocab_fields lines)) markers = [0, 1, 2, 3]"
    by (simp add: Vocab_tok_id_def Vocab_fields_def markers_def)
qed

theorem Vocab_init_markers_witness:
  "distinct ex_lines_src \<and> take 4 ex_lines_src = markers \<and>
   Vocab_init ex_lines_src = Inr (Vocab_fields ex_lines_src) \<and>
   map (Vocab_tok_id (Vocab_fields ex_lines_src)) markers = [0, 1, 2, 3] \<and>
   (\<exists>e. Vocab_init [''<unk>'', ''<pad>'', ''<bos>'', ''<eos>''] = Inl e) \<and>
   (\<exists>e. Vocab_init [''<pad>'', ''<unk>'', ''<bos>''] = Inl e)"
proof -
  have h: "distinct ex_lines_src \<and> take 4 ex_lines_src = markers"
    by (simp add: ex_lines_src_def markers_def)
  have b1: "length [''<unk>'', ''<pad>'', ''<bos>'', ''<eos>''] < 4 \<or>
      take 4 [''<unk>'', ''<pad>'', ''<bos>'', ''<eos>''] \<noteq> markers"
    and b2: "length [''<pad>'', ''<unk>'', ''<bos>''] < 4 \<or>
      take 4 [''<pad>'', ''<unk>'', ''<bos>''] \<noteq> markers"
    by (simp_all add: markers_def)
  from Vocab_init_markers [of ex_lines_src] h
    Vocab_init_markers [of "[''<unk>'', ''<pad>'', ''<bos>'', ''<eos>'']"] b1
    Vocab_init_markers [of "[''<pad>'', ''<unk>'', ''<bos>'']"] b2
  show ?thesis by blast
qed

text \<open>
  Claim C10. On an integer, \<^verbatim>\<open>__contains__\<close> is true exactly when the integer is below
  the size: there is no lower bound, every negative integer is contained, and for
  \<open>-size \<le> n < 0\<close> the lookup returns the entry at position \<open>size + n\<close>.
\<close>

theorem Vocab_contains_int:
  "(Vocab_contains v (Idx n) \<longleftrightarrow> n < int (Vocab_len v)) \<and>
   (n < 0 \<longrightarrow> Vocab_contains v (Idx n)) \<and>
   (- int (Vocab_len v) \<le> n \<and> n < 0 \<longrightarrow>
      Vocab_getitem v (Idx n) = Inr (Tok (idx_to_tok v ! nat (int (Vocab_len v) + n))))"
  by (auto simp: Vocab_len_def getitem_int_def)


theorem Vocab_contains_int_witness:
  "Vocab_contains (Vocab_fields [''<pad>'', ''<unk>'', ''<bos>'', ''<eos>'', ''a'', ''b'']) (Idx (- 1)) \<and>
   Vocab_getitem (Vocab_fields [''<pad>'', ''<unk>'', ''<bos>'', ''<eos>'', ''a'', ''b'']) (Idx (- 1))
     = Inr (Tok ''b'')"
  using Vocab_contains_int
    [of "Vocab_fields [''<pad>'', ''<unk>'', ''<bos>'', ''<eos>'', ''a'', ''b'']" "- 1"]
  by (simp add: Vocab_fields_def Vocab_len_def)

section \<open>Facts about the accumulator\<close>

lemma exceeds_eq:
  "length lens \<le> length ms \<Longrightarrow>
   exceeds ms lens n cap = Inr (\<exists>i<length lens. max (ms ! i) (lens ! i) * n > cap)"
proof (induction ms lens n cap rule: exceeds.induct)
  case (1 ms n cap)
  then show ?case by simp
next
  case (2 l ls n cap)
  then show ?case by simp
next
  case (3 m ms l ls n cap)
  then show ?case by (auto simp: less_Suc_eq_0_disj)
qed

lemma update_max_lens_eq:
  "length lens = length ms \<Longrightarrow> update_max_lens ms lens = Inr (map2 max ms lens)"
  by (induction ms lens rule: update_max_lens.induct) auto

lemma Batch_add_tokens:
  assumes "batch_type b = ''tokens''" and "length lens = length (max_lens b)"
  shows "Batch_add b pos lens =
     (if \<exists>i<length lens. max (max_lens b ! i) (lens ! i) * (int (length (Pos b)) + 1) > batch_size b
      then Inr (False, b)
      else Inr (True, b\<lparr> Pos := Pos b @ [pos], max_lens := map2 max (max_lens b) lens \<rparr>))"
  using assms by (simp add: Batch_add_def exceeds_eq update_max_lens_eq)

lemma Batch_add_sentences:
  assumes "batch_type b \<noteq> ''tokens''" and "length lens = length (max_lens b)"
  shows "Batch_add b pos lens =
     (if int (length (Pos b)) = batch_size b
      then Inr (False, b)
      else Inr (True, b\<lparr> Pos := Pos b @ [pos], max_lens := map2 max (max_lens b) lens \<rparr>))"
  using assms by (simp add: Batch_add_def update_max_lens_eq)

lemma Batch_add_sentences_reject:
  assumes "batch_type b \<noteq> ''tokens''"
  shows "(\<exists>b'. Batch_add b pos lens = Inr (False, b')) \<longleftrightarrow> int (length (Pos b)) = batch_size b"
  using assms by (auto simp: Batch_add_def split: sum.splits)

section \<open>Facts about shards\<close>

lemma mapM_e_map:
  "(\<And>x. x \<in> set xs \<Longrightarrow> f x = Inr (g x)) \<Longrightarrow> mapM_e f xs = Inr (map g xs)"
  by (induction xs) auto

lemma mapM_e_InrD:
  "mapM_e f xs = Inr ys \<Longrightarrow> list_all2 (\<lambda>x y. f x = Inr y) xs ys"
  by (induction xs arbitrary: ys) (auto split: sum.splits)

lemma parallel_side:
  "parallel ds \<Longrightarrow> side \<in> set (File_Line_Idx ds) \<Longrightarrow> length side = n_lines ds"
  by (auto simp: parallel_def list_all_iff)

lemma side_lens_parallel:
  assumes "parallel ds" and "pos < n_lines ds"
  shows "side_lens (File_Line_Idx ds) pos
     = Inr (map (\<lambda>side. length (side ! pos)) (File_Line_Idx ds))"
  unfolding side_lens_def
  by (rule mapM_e_map) (simp add: getitem_list_def parallel_side [OF assms(1)] assms(2))

lemma py_max_Max:
  assumes "xs \<noteq> []"
  shows "py_max xs = Inr (Max (set xs))"
proof (cases xs)
  case Nil
  with assms show ?thesis by simp
next
  case (Cons a list)
  then show ?thesis using Max.set_eq_fold [of a list] by simp
qed

lemma too_long_parallel:
  assumes "parallel ds" and "File_Line_Idx ds \<noteq> []" and "pos < n_lines ds"
  shows "too_long ds pos = Inr (\<not> kept ds pos)"
proof (cases "max_length ds = 0")
  case True
  then show ?thesis by (simp add: too_long_def kept_def)
next
  case False
  let ?ls = "map (\<lambda>side. length (side ! pos)) (File_Line_Idx ds)"
  have ne: "?ls \<noteq> []" using assms(2) by simp
  have "(max_length ds < int (Max (set ?ls))) \<longleftrightarrow> (\<exists>l\<in>set ?ls. max_length ds < int l)"
  proof
    assume "max_length ds < int (Max (set ?ls))"
    moreover have "Max (set ?ls) \<in> set ?ls" using ne by (intro Max_in) simp_all
    ultimately show "\<exists>l\<in>set ?ls. max_length ds < int l" by blast
  next
    assume "\<exists>l\<in>set ?ls. max_length ds < int l"
    then obtain l where l: "l \<in> set ?ls" "max_length ds < int l" by blast
    then have "l \<le> Max (set ?ls)" by (intro Max_ge) simp_all
    with l(2) show "max_length ds < int (Max (set ?ls))" by linarith
  qed
  then have "(max_length ds < int (Max (set ?ls))) \<longleftrightarrow> \<not> kept ds pos"
    using False by (auto simp: kept_def list_all_iff not_le)
  then show ?thesis
    using False ne by (simp add: too_long_def side_lens_parallel [OF assms(1,3)] py_max_Max)
qed

lemma build_shard_parallel:
  assumes "parallel ds" and "File_Line_Idx ds \<noteq> []"
  shows "\<forall>p\<in>set shard. p < n_lines ds \<Longrightarrow>
     build_shard ds shard
       = Inr (filter (kept ds) shard, map (raw_len ds 0) (filter (kept ds) shard))"
proof (induction shard)
  case Nil
  then show ?case by simp
next
  case (Cons pos shard)
  then have pos: "pos < n_lines ds" by simp
  have l: "line_at (File_Line_Idx ds) 0 pos = Inr (File_Line_Idx ds ! 0 ! pos)"
    using pos assms(2) by (simp add: line_at_def getitem_list_def n_lines_def)
  from Cons show ?case
    by (simp add: too_long_parallel [OF assms pos] l raw_len_def)
qed

lemma argsort_ok_set: "argsort_ok argsort \<Longrightarrow> set (argsort ks) = {0..<length ks}"
proof -
  assume "argsort_ok argsort"
  then have "mset (argsort ks) = mset [0..<length ks]" by (simp only: argsort_ok_def)
  from mset_eq_setD [OF this] show ?thesis by simp
qed

lemma sort_shard_ok:
  assumes "argsort_ok argsort" and "length ls = length ps"
  shows "sort_shard argsort ps ls = Inr (map (\<lambda>i. ps ! i) (argsort ls))"
    and "mset (map (\<lambda>i. ps ! i) (argsort ls)) = mset ps"
proof -
  show "sort_shard argsort ps ls = Inr (map (\<lambda>i. ps ! i) (argsort ls))"
    unfolding sort_shard_def
    by (rule mapM_e_map) (simp add: argsort_ok_set [OF assms(1)] assms(2) getitem_list_def)
  have "mset (argsort ls) = mset [0..<length ps]"
    using assms by (simp only: argsort_ok_def)
  then have "mset (map (\<lambda>i. ps ! i) (argsort ls)) = mset (map (\<lambda>i. ps ! i) [0..<length ps])"
    by (simp only: mset_map)
  then show "mset (map (\<lambda>i. ps ! i) (argsort ls)) = mset ps"
    by (simp only: map_nth)
qed

lemma sort_shard_sorted:
  assumes "argsort_ok argsort"
  shows "sorted (map f (map (\<lambda>i. ps ! i) (argsort (map f ps))))"
proof -
  have e: "map f (map (\<lambda>i. ps ! i) (argsort (map f ps)))
      = map (\<lambda>i. map f ps ! i) (argsort (map f ps))"
    by (simp add: argsort_ok_set [OF assms])
  have s: "sorted (map (\<lambda>i. map f ps ! i) (argsort (map f ps)))"
    using assms by (simp only: argsort_ok_def)
  show ?thesis unfolding e by (rule s)
qed

section \<open>The accumulator keeps its invariant\<close>

lemma fits_tokens_iff:
  "ds_batch_type ds = ''tokens'' \<Longrightarrow>
   fits ds pos \<longleftrightarrow> (\<forall>n<n_files ds. int (raw_len ds n pos) + 2 \<le> ds_batch_size ds)"
  by (simp add: fits_def list_all_length raw_len_def n_files_def)

lemma fits_sentences_iff:
  "ds_batch_type ds \<noteq> ''tokens'' \<Longrightarrow> fits ds pos \<longleftrightarrow> ds_batch_size ds \<noteq> 0"
  by (simp add: fits_def)

lemma mult_Suc_ge:
  fixes M :: int
  assumes "0 \<le> M"
  shows "M \<le> M * (int k + 1)"
proof -
  have "0 \<le> M * int k" using assms by simp
  then show ?thesis by (simp add: algebra_simps)
qed

lemma acc_inv_reset:
  assumes "batch_size b = ds_batch_size ds" and "batch_type b = ds_batch_type ds"
  shows "acc_inv ds (Batch_reset b (n_files ds))"
  using assms by (simp add: acc_inv_def Batch_reset_def)

lemma Batch_add_tokens_inv:
  assumes inv: "acc_inv ds b" and pos: "pos < n_lines ds"
    and tok: "ds_batch_type ds = ''tokens''"
    and L: "L = map (\<lambda>l. int l + 2) (map (\<lambda>side. length (side ! pos)) (File_Line_Idx ds))"
  shows "\<exists>r b'. Batch_add b pos L = Inr (r, b') \<and> acc_inv ds b' \<and>
           (r \<longrightarrow> fits ds pos \<and> Pos b' = Pos b @ [pos]) \<and> (\<not> r \<longrightarrow> b' = b) \<and>
           (Pos b = [] \<longrightarrow> (r \<longleftrightarrow> fits ds pos))"
proof -
  have lenL: "length L = n_files ds" by (simp add: L n_files_def)
  have Ln: "L ! n = int (raw_len ds n pos) + 2" if "n < n_files ds" for n
    using that by (simp add: L raw_len_def n_files_def)
  from inv have ml: "length (max_lens b) = n_files ds" and bt: "batch_type b = ''tokens''"
    and bs: "batch_size b = ds_batch_size ds"
    using tok by (simp_all add: acc_inv_def)
  define k where "k = int (length (Pos b))"
  define rej where
    "rej \<longleftrightarrow> (\<exists>i<length L. max (max_lens b ! i) (L ! i) * (k + 1) > batch_size b)"
  let ?b' = "b\<lparr> Pos := Pos b @ [pos], max_lens := map2 max (max_lens b) L \<rparr>"
  have add: "Batch_add b pos L = (if rej then Inr (False, b) else Inr (True, ?b'))"
    unfolding rej_def k_def using Batch_add_tokens [OF bt, of L pos] lenL ml by simp
  have fits_iff: "fits ds pos \<longleftrightarrow> (\<forall>n<n_files ds. L ! n \<le> ds_batch_size ds)"
    using fits_tokens_iff [OF tok] Ln by simp
  have acc: "acc_inv ds ?b' \<and> fits ds pos" if nrej: "\<not> rej"
  proof -
    have bound: "max (max_lens b ! n) (L ! n) * (k + 1) \<le> ds_batch_size ds"
      if n: "n < n_files ds" for n
    proof (rule ccontr)
      assume "\<not> max (max_lens b ! n) (L ! n) * (k + 1) \<le> ds_batch_size ds"
      then have "max (max_lens b ! n) (L ! n) * (k + 1) > batch_size b \<and> n < length L"
        using n lenL bs by simp
      then have rej unfolding rej_def by blast
      with nrej show False by simp
    qed
    have "L ! n \<le> ds_batch_size ds" if n: "n < n_files ds" for n
    proof -
      let ?M = "max (max_lens b ! n) (L ! n)"
      have "0 \<le> ?M" using Ln [OF n] by simp
      from mult_Suc_ge [OF this, of "length (Pos b)"] bound [OF n]
      have "?M \<le> ds_batch_size ds" by (simp add: k_def)
      then show ?thesis by simp
    qed
    then have f: "fits ds pos" by (simp add: fits_iff)
    have nth: "map2 max (max_lens b) L ! n = max (max_lens b ! n) (L ! n)"
      if "n < n_files ds" for n
      using that ml lenL by simp
    have old: "p < n_lines ds \<and> (\<forall>n<n_files ds. int (raw_len ds n p) + 2 \<le> max_lens b ! n)"
      if "p \<in> set (Pos b)" for p
      using inv that by (simp add: acc_inv_def)
    have a4: "\<forall>p\<in>set (Pos ?b'). p < n_lines ds \<and>
        (\<forall>n<n_files ds. int (raw_len ds n p) + 2 \<le> max_lens ?b' ! n)"
    proof
      fix p assume "p \<in> set (Pos ?b')"
      then consider "p \<in> set (Pos b)" | "p = pos" by auto
      then show "p < n_lines ds \<and> (\<forall>n<n_files ds. int (raw_len ds n p) + 2 \<le> max_lens ?b' ! n)"
      proof cases
        case 1
        from old [OF 1] show ?thesis by (auto simp: nth)
      next
        case 2
        then show ?thesis using pos Ln by (auto simp: nth)
      qed
    qed
    have a5: "\<forall>n<n_files ds. max_lens ?b' ! n * int (length (Pos ?b')) \<le> ds_batch_size ds"
      using bound by (simp add: nth k_def add.commute)
    have "acc_inv ds ?b'"
      unfolding acc_inv_def using a4 a5 bs bt tok ml lenL by simp
    with f show ?thesis by simp
  qed
  have empty: "rej \<longleftrightarrow> \<not> fits ds pos" if e: "Pos b = []"
  proof -
    from inv e have z: "max_lens b = replicate (n_files ds) 0" by (simp add: acc_inv_def)
    have "max (max_lens b ! i) (L ! i) * (k + 1) = L ! i" if "i < n_files ds" for i
      using that Ln [OF that] z e by (simp add: k_def)
    then have "rej \<longleftrightarrow> (\<exists>i<n_files ds. L ! i > ds_batch_size ds)"
      unfolding rej_def using lenL bs by auto
    then show ?thesis unfolding fits_iff by (auto simp: not_le)
  qed
  show ?thesis
  proof (cases rej)
    case True
    with add inv empty show ?thesis by auto
  next
    case False
    with add acc empty show ?thesis by auto
  qed
qed

lemma Batch_add_sentences_inv:
  assumes inv: "acc_inv ds b" and pos: "pos < n_lines ds"
    and tok: "ds_batch_type ds \<noteq> ''tokens''"
    and L: "L = map (\<lambda>l. int l + 2) (map (\<lambda>side. length (side ! pos)) (File_Line_Idx ds))"
  shows "\<exists>r b'. Batch_add b pos L = Inr (r, b') \<and> acc_inv ds b' \<and>
           (r \<longrightarrow> fits ds pos \<and> Pos b' = Pos b @ [pos]) \<and> (\<not> r \<longrightarrow> b' = b) \<and>
           (Pos b = [] \<longrightarrow> (r \<longleftrightarrow> fits ds pos))"
proof -
  have lenL: "length L = n_files ds" by (simp add: L n_files_def)
  have Ln: "L ! n = int (raw_len ds n pos) + 2" if "n < n_files ds" for n
    using that by (simp add: L raw_len_def n_files_def)
  from inv have ml: "length (max_lens b) = n_files ds" and bt: "batch_type b \<noteq> ''tokens''"
    and bs: "batch_size b = ds_batch_size ds"
    using tok by (simp_all add: acc_inv_def)
  from inv tok have cap: "0 \<le> ds_batch_size ds \<Longrightarrow> int (length (Pos b)) \<le> ds_batch_size ds"
    by (simp add: acc_inv_def)
  define rej where "rej \<longleftrightarrow> int (length (Pos b)) = batch_size b"
  let ?b' = "b\<lparr> Pos := Pos b @ [pos], max_lens := map2 max (max_lens b) L \<rparr>"
  have add: "Batch_add b pos L = (if rej then Inr (False, b) else Inr (True, ?b'))"
    unfolding rej_def using Batch_add_sentences [OF bt, of L pos] lenL ml by simp
  have fits_iff: "fits ds pos \<longleftrightarrow> ds_batch_size ds \<noteq> 0"
    by (rule fits_sentences_iff [OF tok])
  have acc: "acc_inv ds ?b' \<and> fits ds pos" if nrej: "\<not> rej"
  proof -
    have f: "fits ds pos"
      unfolding fits_iff using cap nrej bs by (auto simp: rej_def)
    have nth: "map2 max (max_lens b) L ! n = max (max_lens b ! n) (L ! n)"
      if "n < n_files ds" for n
      using that ml lenL by simp
    have old: "p < n_lines ds \<and> (\<forall>n<n_files ds. int (raw_len ds n p) + 2 \<le> max_lens b ! n)"
      if "p \<in> set (Pos b)" for p
      using inv that by (simp add: acc_inv_def)
    have a4: "\<forall>p\<in>set (Pos ?b'). p < n_lines ds \<and>
        (\<forall>n<n_files ds. int (raw_len ds n p) + 2 \<le> max_lens ?b' ! n)"
    proof
      fix p assume "p \<in> set (Pos ?b')"
      then consider "p \<in> set (Pos b)" | "p = pos" by auto
      then show "p < n_lines ds \<and> (\<forall>n<n_files ds. int (raw_len ds n p) + 2 \<le> max_lens ?b' ! n)"
      proof cases
        case 1
        from old [OF 1] show ?thesis by (auto simp: nth)
      next
        case 2
        then show ?thesis using pos Ln by (auto simp: nth)
      qed
    qed
    have a6: "0 \<le> ds_batch_size ds \<longrightarrow> int (length (Pos ?b')) \<le> ds_batch_size ds"
      using cap nrej bs by (auto simp: rej_def)
    have "acc_inv ds ?b'"
      unfolding acc_inv_def using a4 a6 bs bt tok ml lenL inv by (simp add: acc_inv_def)
    with f show ?thesis by simp
  qed
  have empty: "rej \<longleftrightarrow> \<not> fits ds pos" if e: "Pos b = []"
    unfolding fits_iff rej_def using e bs by auto
  show ?thesis
  proof (cases rej)
    case True
    with add inv empty show ?thesis by auto
  next
    case False
    with add acc empty show ?thesis by auto
  qed
qed

lemma Batch_add_inv:
  assumes "acc_inv ds b" and "pos < n_lines ds"
    and "L = map (\<lambda>l. int l + 2) (map (\<lambda>side. length (side ! pos)) (File_Line_Idx ds))"
  shows "\<exists>r b'. Batch_add b pos L = Inr (r, b') \<and> acc_inv ds b' \<and>
           (r \<longrightarrow> fits ds pos \<and> Pos b' = Pos b @ [pos]) \<and> (\<not> r \<longrightarrow> b' = b) \<and>
           (Pos b = [] \<longrightarrow> (r \<longleftrightarrow> fits ds pos))"
  using Batch_add_tokens_inv [OF assms(1,2) _ assms(3)]
    Batch_add_sentences_inv [OF assms(1,2) _ assms(3)]
  by (cases "ds_batch_type ds = ''tokens''") blast+

section \<open>The packing loop\<close>

lemma acc_inv_flush:
  assumes inv: "acc_inv ds b" and ne: "Pos b \<noteq> []"
  shows "batch_ok ds (Pos b)"
proof -
  have rng: "\<forall>p\<in>set (Pos b). p < n_lines ds" using inv by (simp add: acc_inv_def)
  have tokb: "padded_size ds n (Pos b) \<le> ds_batch_size ds"
    if tok: "ds_batch_type ds = ''tokens''" and n: "n < n_files ds" for n
  proof -
    let ?S = "(\<lambda>pos. raw_len ds n pos) ` set (Pos b)"
    have "Max ?S \<in> ?S" using ne by (intro Max_in) simp_all
    then obtain p where p: "p \<in> set (Pos b)" "Max ?S = raw_len ds n p" by auto
    from inv p(1) n have "int (raw_len ds n p) + 2 \<le> max_lens b ! n"
      by (simp add: acc_inv_def)
    then have "(int (Max ?S) + 2) * int (length (Pos b)) \<le> max_lens b ! n * int (length (Pos b))"
      unfolding p(2) by (intro mult_right_mono) simp_all
    moreover from inv tok ne n have "max_lens b ! n * int (length (Pos b)) \<le> ds_batch_size ds"
      by (simp add: acc_inv_def)
    ultimately show ?thesis unfolding padded_size_def by linarith
  qed
  have sen: "ds_batch_type ds \<noteq> ''tokens'' \<longrightarrow> 0 \<le> ds_batch_size ds \<longrightarrow>
      int (length (Pos b)) \<le> ds_batch_size ds"
    using inv by (simp add: acc_inv_def)
  show ?thesis unfolding batch_ok_def using ne rng tokb sen by blast
qed

lemma pack_step_inv:
  assumes par: "parallel ds" and pos: "pos < n_lines ds" and inv: "acc_inv ds b"
  shows "\<exists>b' batchs'. pack_step ds (n_files ds) (b, batchs) pos = Inr (b', batchs') \<and>
           acc_inv ds b' \<and>
           (batchs' = batchs \<or> (Pos b \<noteq> [] \<and> batchs' = batchs @ [Pos b])) \<and>
           mset (Pos b') + mset (concat batchs')
             = mset (Pos b) + mset (concat batchs) + (if fits ds pos then {#pos#} else {#})"
proof -
  define L where
    "L = map (\<lambda>l. int l + 2) (map (\<lambda>side. length (side ! pos)) (File_Line_Idx ds))"
  from Batch_add_inv [OF inv pos L_def]
  obtain r b1 where a1: "Batch_add b pos L = Inr (r, b1)" and i1: "acc_inv ds b1"
    and r1: "r \<longrightarrow> fits ds pos \<and> Pos b1 = Pos b @ [pos]" and n1: "\<not> r \<longrightarrow> b1 = b"
    and e1: "Pos b = [] \<longrightarrow> (r \<longleftrightarrow> fits ds pos)"
    by blast
  have step: "pack_step ds (n_files ds) (b, batchs) pos =
      (if r then Inr (b1, batchs)
       else (case (if Batch_len b1 \<noteq> 0
                   then (Batch_reset b1 (n_files ds), batchs @ [Pos b1])
                   else (b1, batchs)) of
               (b2, batchs2) \<Rightarrow>
                 (case Batch_add b2 pos L of
                    Inl e \<Rightarrow> Inl e
                  | Inr (_, b3) \<Rightarrow> Inr (b3, batchs2))))"
    apply (simp only: pack_step_def side_lens_parallel [OF par pos] Let_def prod.case sum.case)
    apply (simp only: L_def [symmetric] a1)
    apply simp
    done
  show ?thesis
  proof (cases r)
    case True
    with step i1 r1 show ?thesis by simp
  next
    case False
    with n1 have b1: "b1 = b" by simp
    show ?thesis
    proof (cases "Pos b = []")
      case True
      with e1 False have nf: "\<not> fits ds pos" by simp
      from step False b1 True a1 have "pack_step ds (n_files ds) (b, batchs) pos = Inr (b, batchs)"
        by (simp add: Batch_len_def)
      with inv nf show ?thesis by simp
    next
      case ne: False
      let ?b2 = "Batch_reset b (n_files ds)"
      have i2: "acc_inv ds ?b2" using inv by (intro acc_inv_reset) (simp_all add: acc_inv_def)
      have p2: "Pos ?b2 = []" by (simp add: Batch_reset_def)
      from Batch_add_inv [OF i2 pos L_def]
      obtain r2 b3 where a2: "Batch_add ?b2 pos L = Inr (r2, b3)" and i3: "acc_inv ds b3"
        and r3: "r2 \<longrightarrow> fits ds pos \<and> Pos b3 = Pos ?b2 @ [pos]" and n3: "\<not> r2 \<longrightarrow> b3 = ?b2"
        and e3: "Pos ?b2 = [] \<longrightarrow> (r2 \<longleftrightarrow> fits ds pos)"
        by blast
      from step False b1 ne a2
      have s: "pack_step ds (n_files ds) (b, batchs) pos = Inr (b3, batchs @ [Pos b])"
        by (simp add: Batch_len_def)
      have "mset (Pos b3) = (if fits ds pos then {#pos#} else {#})"
        using r3 n3 e3 p2 by (cases r2) simp_all
      with s i3 ne show ?thesis by simp
    qed
  qed
qed

lemma pack_inv:
  assumes par: "parallel ds"
  shows "\<forall>p\<in>set ps. p < n_lines ds \<Longrightarrow> acc_inv ds b \<Longrightarrow> \<forall>B\<in>set batchs. batch_ok ds B \<Longrightarrow>
     \<exists>b' batchs'. pack ds (n_files ds) (b, batchs) ps = Inr (b', batchs') \<and>
       acc_inv ds b' \<and> (\<forall>B\<in>set batchs'. batch_ok ds B) \<and>
       mset (Pos b') + mset (concat batchs')
         = mset (Pos b) + mset (concat batchs) + mset (filter (fits ds) ps)"
proof (induction ps arbitrary: b batchs)
  case Nil
  then show ?case by simp
next
  case (Cons pos ps)
  then have pos: "pos < n_lines ds" by simp
  from pack_step_inv [OF par pos Cons.prems(2), of batchs]
  obtain b1 batchs1 where s: "pack_step ds (n_files ds) (b, batchs) pos = Inr (b1, batchs1)"
    and i1: "acc_inv ds b1"
    and bs1: "batchs1 = batchs \<or> (Pos b \<noteq> [] \<and> batchs1 = batchs @ [Pos b])"
    and m1: "mset (Pos b1) + mset (concat batchs1)
             = mset (Pos b) + mset (concat batchs) + (if fits ds pos then {#pos#} else {#})"
    by blast
  have ok1: "\<forall>B\<in>set batchs1. batch_ok ds B"
    using bs1 Cons.prems(3) acc_inv_flush [OF Cons.prems(2)] by auto
  have rng: "\<forall>p\<in>set ps. p < n_lines ds" using Cons.prems(1) by simp
  from Cons.IH [OF rng i1 ok1]
  obtain b' batchs' where r: "pack ds (n_files ds) (b1, batchs1) ps = Inr (b', batchs')"
    and i': "acc_inv ds b'" and ok': "\<forall>B\<in>set batchs'. batch_ok ds B"
    and m': "mset (Pos b') + mset (concat batchs')
             = mset (Pos b1) + mset (concat batchs1) + mset (filter (fits ds) ps)"
    by blast
  have "pack ds (n_files ds) (b, batchs) (pos # ps) = Inr (b', batchs')"
    using s r by simp
  moreover have "mset (Pos b') + mset (concat batchs')
      = mset (Pos b) + mset (concat batchs) + mset (filter (fits ds) (pos # ps))"
    using m' m1 by simp
  ultimately show ?case using i' ok' by blast
qed

lemma build_batchs_ok:
  assumes par: "parallel ds"
    and bt: "ds_batch_type ds = ''sentences'' \<or> ds_batch_type ds = ''tokens''"
    and rng: "\<forall>p\<in>set ps. p < n_lines ds"
  shows "\<exists>batchs. build_batchs ds (n_files ds) ps = Inr batchs \<and>
           (\<forall>B\<in>set batchs. batch_ok ds B) \<and>
           mset (concat batchs) = mset (filter (fits ds) ps)"
proof -
  let ?cfg = "\<lparr> batch_size = ds_batch_size ds, batch_type = ds_batch_type ds \<rparr>"
  have init: "Batch_init (ds_batch_size ds) (ds_batch_type ds) = Inr ?cfg"
    using bt by (auto simp: Batch_init_def)
  let ?b0 = "Batch_reset ?cfg (n_files ds)"
  have i0: "acc_inv ds ?b0" by (intro acc_inv_reset) simp_all
  have p0: "Pos ?b0 = []" by (simp add: Batch_reset_def)
  from pack_inv [OF par rng i0, of "[]"]
  obtain b' batchs' where r: "pack ds (n_files ds) (?b0, []) ps = Inr (b', batchs')"
    and i': "acc_inv ds b'" and ok': "\<forall>B\<in>set batchs'. batch_ok ds B"
    and m': "mset (Pos b') + mset (concat batchs') = mset (filter (fits ds) ps)"
    using p0 by auto
  have res: "build_batchs ds (n_files ds) ps
      = Inr (if Batch_len b' \<noteq> 0 then batchs' @ [Pos b'] else batchs')"
    by (simp add: build_batchs_def init r)
  show ?thesis
  proof (cases "Pos b' = []")
    case True
    with res ok' m' show ?thesis by (simp add: Batch_len_def)
  next
    case False
    with res ok' m' acc_inv_flush [OF i' False] show ?thesis
      by (simp add: Batch_len_def add.commute)
  qed
qed

section \<open>Yielding and the shard loop\<close>

lemma mset_map_nth_perm:
  assumes "mset js = mset [0..<length xs]"
  shows "mset (map (\<lambda>i. xs ! i) js) = mset xs"
proof -
  from assms have "mset (map (\<lambda>i. xs ! i) js) = mset (map (\<lambda>i. xs ! i) [0..<length xs])"
    by (simp only: mset_map)
  then show ?thesis by (simp only: map_nth)
qed

lemma mset_concat_cong:
  assumes "mset xs = mset ys"
  shows "mset (concat xs) = mset (concat ys)"
proof -
  have "mset (concat zs) = sum_mset (image_mset mset (mset zs))" for zs :: "'a list list"
    by (induction zs) simp_all
  with assms show ?thesis by simp
qed

lemma wrap_line_parallel:
  assumes "parallel ds" and "n < n_files ds" and "pos < n_lines ds"
  shows "wrap_line ds n pos
     = Inr ([ds_idx_bos ds ! n] @ File_Line_Idx ds ! n ! pos @ [ds_idx_eos ds ! n])"
proof -
  have "File_Line_Idx ds ! n \<in> set (File_Line_Idx ds)"
    using assms(2) by (simp add: n_files_def)
  from parallel_side [OF assms(1) this] have "pos < length (File_Line_Idx ds ! n)"
    using assms(3) by simp
  then show ?thesis
    using assms by (simp add: wrap_line_def line_at_def getitem_list_def parallel_def n_files_def)
qed

lemma wrap_batch_parallel:
  assumes "parallel ds" and "\<forall>p\<in>set B. p < n_lines ds"
  shows "wrap_batch ds (n_files ds) B
     = Inr (map (\<lambda>n. map (\<lambda>pos. [ds_idx_bos ds ! n] @ File_Line_Idx ds ! n ! pos @ [ds_idx_eos ds ! n]) B)
              [0..<n_files ds])"
  unfolding wrap_batch_def
proof (rule mapM_e_map)
  fix n assume "n \<in> set [0..<n_files ds]"
  then have n: "n < n_files ds" by simp
  show "mapM_e (wrap_line ds n) B
      = Inr (map (\<lambda>pos. [ds_idx_bos ds ! n] @ File_Line_Idx ds ! n ! pos @ [ds_idx_eos ds ! n]) B)"
    by (rule mapM_e_map) (simp add: wrap_line_parallel [OF assms(1) n] assms(2))
qed

lemma yield_batchs_ok:
  assumes par: "parallel ds" and rng: "\<forall>B\<in>set batchs. \<forall>p\<in>set B. p < n_lines ds"
    and idx: "\<forall>i\<in>set js. i < length batchs"
  shows "\<exists>ys. yield_batchs ds (n_files ds) batchs js = Inr ys \<and>
           map fst ys = map (\<lambda>i. batchs ! i) js"
proof -
  define W where "W B = map (\<lambda>n. map (\<lambda>pos. [ds_idx_bos ds ! n] @ File_Line_Idx ds ! n ! pos
      @ [ds_idx_eos ds ! n]) B) [0..<n_files ds]" for B
  have "yield_batchs ds (n_files ds) batchs js = Inr (map (\<lambda>i. (batchs ! i, W (batchs ! i))) js)"
    unfolding yield_batchs_def
  proof (rule mapM_e_map)
    fix i assume "i \<in> set js"
    with idx have i: "i < length batchs" by simp
    then have "batchs ! i \<in> set batchs" by simp
    with rng have "\<forall>p\<in>set (batchs ! i). p < n_lines ds" by blast
    from wrap_batch_parallel [OF par this] i
    show "(case getitem_list batchs i of Inl e \<Rightarrow> Inl e
          | Inr batch \<Rightarrow>
              (case wrap_batch ds (n_files ds) batch of Inl e \<Rightarrow> Inl e
               | Inr idxs_all \<Rightarrow> Inr (batch, idxs_all)))
        = Inr (batchs ! i, W (batchs ! i))"
      by (simp add: getitem_list_def W_def)
  qed
  then show ?thesis by (simp add: comp_def)
qed

lemma iter_shard_ok:
  assumes par: "parallel ds" and ne: "File_Line_Idx ds \<noteq> []"
    and bt: "ds_batch_type ds = ''sentences'' \<or> ds_batch_type ds = ''tokens''"
    and sh: "shuffle_ok shuffle" and ar: "argsort_ok argsort"
    and rng: "\<forall>p\<in>set shard. p < n_lines ds"
  shows "\<exists>ys g'. iter_shard shuffle argsort ds (n_files ds) g shard = Inr (ys, g') \<and>
           (\<forall>B\<in>set (map fst ys). batch_ok ds B) \<and>
           mset (concat (map fst ys)) = mset (filter (\<lambda>p. kept ds p \<and> fits ds p) shard)"
proof -
  let ?ps = "filter (kept ds) shard"
  let ?ls = "map (raw_len ds 0) ?ps"
  have b: "build_shard ds shard = Inr (?ps, ?ls)"
    by (rule build_shard_parallel [OF par ne rng])
  let ?sp = "map (\<lambda>i. ?ps ! i) (argsort ?ls)"
  have s: "sort_shard argsort ?ps ?ls = Inr ?sp" and ms: "mset ?sp = mset ?ps"
    using sort_shard_ok [OF ar, of ?ls ?ps] by simp_all
  have rsp: "\<forall>p\<in>set ?sp. p < n_lines ds"
  proof -
    from mset_eq_setD [OF ms] have "set ?sp = set ?ps" .
    with rng show ?thesis by auto
  qed
  from build_batchs_ok [OF par bt rsp]
  obtain batchs where bb: "build_batchs ds (n_files ds) ?sp = Inr batchs"
    and ok: "\<forall>B\<in>set batchs. batch_ok ds B"
    and mb: "mset (concat batchs) = mset (filter (fits ds) ?sp)"
    by blast
  obtain js g' where sf: "shuffle g [0..<length batchs] = (js, g')" by (cases "shuffle g [0..<length batchs]")
  from sh have mj: "mset js = mset [0..<length batchs]"
    using sf by (simp only: shuffle_ok_def) (metis fst_conv)
  have ij: "\<forall>i\<in>set js. i < length batchs"
    using mset_eq_setD [OF mj] by simp
  have rb: "\<forall>B\<in>set batchs. \<forall>p\<in>set B. p < n_lines ds"
    using ok by (simp add: batch_ok_def)
  from yield_batchs_ok [OF par rb ij]
  obtain ys where y: "yield_batchs ds (n_files ds) batchs js = Inr ys"
    and f: "map fst ys = map (\<lambda>i. batchs ! i) js"
    by blast
  have res: "iter_shard shuffle argsort ds (n_files ds) g shard = Inr (ys, g')"
    by (simp add: iter_shard_def b s bb sf y)
  have mf: "mset (map fst ys) = mset batchs"
    unfolding f by (rule mset_map_nth_perm [OF mj])
  have okf: "\<forall>B\<in>set (map fst ys). batch_ok ds B"
    using mset_eq_setD [OF mf] ok by simp
  have "mset (concat (map fst ys)) = mset (concat batchs)"
    by (rule mset_concat_cong [OF mf])
  also have "\<dots> = filter_mset (fits ds) (mset ?sp)" using mb by simp
  also have "\<dots> = filter_mset (fits ds) (mset ?ps)" by (simp only: ms)
  also have "\<dots> = mset (filter (fits ds) ?ps)" by (simp only: mset_filter)
  also have "\<dots> = mset (filter (\<lambda>p. kept ds p \<and> fits ds p) shard)"
    by (simp only: filter_filter)
  finally show ?thesis using res okf by blast
qed

lemma iter_shards_ok:
  assumes par: "parallel ds" and ne: "File_Line_Idx ds \<noteq> []"
    and bt: "ds_batch_type ds = ''sentences'' \<or> ds_batch_type ds = ''tokens''"
    and sh: "shuffle_ok shuffle" and ar: "argsort_ok argsort"
  shows "\<forall>p\<in>set (concat shards). p < n_lines ds \<Longrightarrow>
     \<exists>ys g'. iter_shards shuffle argsort ds (n_files ds) g shards = Inr (ys, g') \<and>
       (\<forall>B\<in>set (map fst ys). batch_ok ds B) \<and>
       mset (concat (map fst ys)) = mset (filter (\<lambda>p. kept ds p \<and> fits ds p) (concat shards))"
proof (induction shards arbitrary: g)
  case Nil
  then show ?case by simp
next
  case (Cons shard shards)
  then have r1: "\<forall>p\<in>set shard. p < n_lines ds" and r2: "\<forall>p\<in>set (concat shards). p < n_lines ds"
    by simp_all
  from iter_shard_ok [OF par ne bt sh ar r1, of g]
  obtain ys g1 where a: "iter_shard shuffle argsort ds (n_files ds) g shard = Inr (ys, g1)"
    and oka: "\<forall>B\<in>set (map fst ys). batch_ok ds B"
    and ma: "mset (concat (map fst ys)) = mset (filter (\<lambda>p. kept ds p \<and> fits ds p) shard)"
    by blast
  from Cons.IH [OF r2, of g1]
  obtain zs g2 where b: "iter_shards shuffle argsort ds (n_files ds) g1 shards = Inr (zs, g2)"
    and okb: "\<forall>B\<in>set (map fst zs). batch_ok ds B"
    and mb: "mset (concat (map fst zs))
             = mset (filter (\<lambda>p. kept ds p \<and> fits ds p) (concat shards))"
    by blast
  have "iter_shards shuffle argsort ds (n_files ds) g (shard # shards) = Inr (ys @ zs, g2)"
    using a b by simp
  moreover have "\<forall>B\<in>set (map fst (ys @ zs)). batch_ok ds B" using oka okb by auto
  moreover have "mset (concat (map fst (ys @ zs)))
      = mset (filter (\<lambda>p. kept ds p \<and> fits ds p) (concat (shard # shards)))"
    using ma mb by simp
  ultimately show ?case by blast
qed

declare shards_from.simps [simp del]

lemma concat_shards_from:
  "0 < step \<Longrightarrow> concat (shards_from i step (length P) P) = drop i P"
proof (induction i step "length P" P rule: shards_from.induct)
  case (1 i step P)
  show ?case
  proof (cases "length P \<le> i")
    case True
    then show ?thesis by (simp add: shards_from.simps [of i])
  next
    case False
    with 1 have "concat (shards_from (i + step) step (length P) P) = drop (i + step) P"
      by simp
    moreover have "take step (drop i P) @ drop (i + step) P = drop i P"
      by (metis add.commute append_take_drop_id drop_drop)
    ultimately show ?thesis using False 1(2) by (simp add: shards_from.simps [of i])
  qed
qed

section \<open>The iteration pass\<close>

lemma shard_size_update [simp]:
  "parallel (ds\<lparr> shard_size := x \<rparr>) = parallel ds"
  "n_files (ds\<lparr> shard_size := x \<rparr>) = n_files ds"
  "n_lines (ds\<lparr> shard_size := x \<rparr>) = n_lines ds"
  "kept (ds\<lparr> shard_size := x \<rparr>) = kept ds"
  "fits (ds\<lparr> shard_size := x \<rparr>) = fits ds"
  "batch_ok (ds\<lparr> shard_size := x \<rparr>) = batch_ok ds"
  by (simp_all add: parallel_def n_files_def n_lines_def kept_def fits_def batch_ok_def
      padded_size_def raw_len_def fun_eq_iff)

lemma Dataset_iter_empty:
  "File_Line_Idx ds = [] \<Longrightarrow> Dataset_iter shuffle argsort ds g = Inl (AssertionError ''Empty dataset'')"
  by (simp add: Dataset_iter_def)

lemma Dataset_iter_zero_step:
  assumes "File_Line_Idx ds \<noteq> []" and "shard_size ds = 0" and "n_lines ds = 0"
  shows "Dataset_iter shuffle argsort ds g = Inl ValueError"
  using assms by (simp add: Dataset_iter_def n_lines_def Let_def split: prod.splits)

lemma Dataset_iter_negative_step:
  assumes "File_Line_Idx ds \<noteq> []" and "shard_size ds < 0"
  shows "Dataset_iter shuffle argsort ds g
     = Inr (ds, [], snd (shuffle g [0..<n_lines ds]))"
  using assms by (simp add: Dataset_iter_def n_lines_def Let_def split: prod.splits)

lemma Dataset_iter_ok:
  assumes par: "parallel ds" and ne: "File_Line_Idx ds \<noteq> []"
    and bt: "ds_batch_type ds = ''sentences'' \<or> ds_batch_type ds = ''tokens''"
    and sh: "shuffle_ok shuffle" and ar: "argsort_ok argsort"
    and ss: "0 < shard_size ds \<or> (shard_size ds = 0 \<and> 0 < n_lines ds)"
  shows "\<exists>ds' ys g'. Dataset_iter shuffle argsort ds g = Inr (ds', ys, g') \<and>
           (\<forall>B\<in>set (map fst ys). batch_ok ds B) \<and>
           mset (concat (map fst ys))
             = mset (filter (\<lambda>p. kept ds p \<and> fits ds p) [0..<n_lines ds])"
proof -
  obtain P g1 where sf: "shuffle g [0..<n_lines ds] = (P, g1)"
    by (cases "shuffle g [0..<n_lines ds]")
  from sh have mP: "mset P = mset [0..<n_lines ds]"
    using sf by (simp only: shuffle_ok_def) (metis fst_conv)
  from mset_eq_length [OF mP] have lP: "length P = n_lines ds" by simp
  define ds1 where "ds1 = (if shard_size ds = 0 then ds\<lparr> shard_size := int (n_lines ds) \<rparr> else ds)"
  have pos1: "0 < shard_size ds1" using ss by (auto simp: ds1_def)
  have same: "parallel ds1 = parallel ds" "n_files ds1 = n_files ds" "n_lines ds1 = n_lines ds"
    "kept ds1 = kept ds" "fits ds1 = fits ds" "batch_ok ds1 = batch_ok ds"
    "File_Line_Idx ds1 = File_Line_Idx ds" "ds_batch_type ds1 = ds_batch_type ds"
    by (simp_all add: ds1_def)
  define shards where "shards = shards_from 0 (nat (shard_size ds1)) (n_lines ds) P"
  have cs: "concat shards = P"
    using concat_shards_from [of "nat (shard_size ds1)" 0 P] pos1 lP by (simp add: shards_def)
  have rng: "\<forall>p\<in>set (concat shards). p < n_lines ds1"
    using mset_eq_setD [OF mP] by (simp add: cs same)
  from iter_shards_ok [of ds1 shuffle argsort shards g1] par ne bt sh ar rng
  obtain ys g2 where it: "iter_shards shuffle argsort ds1 (n_files ds) g1 shards = Inr (ys, g2)"
    and ok: "\<forall>B\<in>set (map fst ys). batch_ok ds B"
    and m: "mset (concat (map fst ys)) = mset (filter (\<lambda>p. kept ds p \<and> fits ds p) P)"
    by (auto simp: same cs)
  have nf: "0 < n_files ds" using ne by (simp add: n_files_def)
  have res: "Dataset_iter shuffle argsort ds g = Inr (ds1, ys, g2)"
    using nf pos1 it sf
    by (simp add: Dataset_iter_def Let_def n_lines_def [symmetric] n_files_def [symmetric]
        ds1_def [symmetric] shards_def [symmetric])
  have "mset (filter (\<lambda>p. kept ds p \<and> fits ds p) P)
      = mset (filter (\<lambda>p. kept ds p \<and> fits ds p) [0..<n_lines ds])"
    by (simp only: mset_filter mP)
  with m res ok show ?thesis by simp
qed

lemma Dataset_iter_yields:
  assumes par: "parallel ds"
    and bt: "ds_batch_type ds = ''sentences'' \<or> ds_batch_type ds = ''tokens''"
    and sh: "shuffle_ok shuffle" and ar: "argsort_ok argsort"
    and it: "Dataset_iter shuffle argsort ds g = Inr (ds', ys, g')"
  shows "(\<forall>B\<in>set (map fst ys). batch_ok ds B) \<and>
         (\<forall>p\<in>set (concat (map fst ys)). p < n_lines ds \<and> kept ds p \<and> fits ds p)"
proof -
  have ne: "File_Line_Idx ds \<noteq> []" using it Dataset_iter_empty [of ds shuffle argsort g] by auto
  consider "shard_size ds < 0" | "shard_size ds = 0 \<and> n_lines ds = 0"
    | "0 < shard_size ds \<or> (shard_size ds = 0 \<and> 0 < n_lines ds)"
    by linarith
  then show ?thesis
  proof cases
    case 1
    from Dataset_iter_negative_step [OF ne 1, of shuffle argsort g] it show ?thesis by simp
  next
    case 2
    with Dataset_iter_zero_step [OF ne, of shuffle argsort g] it show ?thesis by simp
  next
    case 3
    from Dataset_iter_ok [OF par ne bt sh ar 3, of g] it
    have ok: "\<forall>B\<in>set (map fst ys). batch_ok ds B"
      and m: "mset (concat (map fst ys))
             = mset (filter (\<lambda>p. kept ds p \<and> fits ds p) [0..<n_lines ds])"
      by auto
    from mset_eq_setD [OF m] ok show ?thesis by auto
  qed
qed

lemma shuffle_id_ok: "shuffle_ok shuffle_id"
  by (simp add: shuffle_ok_def shuffle_id_def)

lemma shuffle_rev_ok: "shuffle_ok shuffle_rev"
  by (simp add: shuffle_ok_def shuffle_rev_def)

lemma argsort_stable_ok: "argsort_ok argsort_stable"
  using sorted_sort_key [of "\<lambda>i. ks ! i" "[0..<length ks]" for ks :: "nat list"]
  by (simp add: argsort_ok_def argsort_stable_def)

lemma argsort_reversing_ok: "argsort_ok argsort_reversing"
  using sorted_sort_key [of "\<lambda>i. ks ! i" "rev [0..<length ks]" for ks :: "nat list"]
  by (simp add: argsort_ok_def argsort_reversing_def)

lemma ex_dataset_parallel: "parallel (ex_dataset ss bs bt ml)"
  by (simp add: parallel_def ex_dataset_def n_files_def n_lines_def)

section \<open>Claims on the accumulator and the token budget\<close>

text \<open>
  Claim C4. Under the token policy, with one length per side, \<^verbatim>\<open>add\<close> rejects (returns
  false and leaves the accumulator as it is) exactly when on some side the larger of the
  running maximum and the new length, times the size plus one, exceeds the capacity;
  otherwise it appends the position, replaces every maximum by the elementwise maximum
  and returns true. In the specification's scenario (capacity 4) the example of padded
  length 3 is accepted, the example of padded length 4 is then rejected, as
  \<open>max 3 4 * 2 = 8 > 4\<close>, and the pass yields two batches of one example each.
\<close>

theorem Batch_add_tokens_rule:
  "(batch_type b = ''tokens'' \<and> length lens = length (max_lens b) \<longrightarrow>
      Batch_add b pos lens =
        (if \<exists>i<length lens.
              max (max_lens b ! i) (lens ! i) * (int (length (Pos b)) + 1) > batch_size b
         then Inr (False, b)
         else Inr (True, b\<lparr> Pos := Pos b @ [pos], max_lens := map2 max (max_lens b) lens \<rparr>))) \<and>
   Batch_add (Batch_reset \<lparr> batch_size = 4, batch_type = ''tokens'' \<rparr> 2) 1 [3, 3]
     = Inr (True, \<lparr> batch_size = 4, batch_type = ''tokens'', Pos = [1], max_lens = [3, 3] \<rparr>) \<and>
   Batch_add \<lparr> batch_size = 4, batch_type = ''tokens'', Pos = [1], max_lens = [3, 3] \<rparr> 0 [4, 4]
     = Inr (False, \<lparr> batch_size = 4, batch_type = ''tokens'', Pos = [1], max_lens = [3, 3] \<rparr>) \<and>
   Dataset_iter shuffle_id argsort_stable (ex_dataset 0 4 ''tokens'' 0) ()
     = Inr (ex_dataset 2 4 ''tokens'' 0,
            [([1], [[[2, 5, 3]], [[2, 5, 3]]]), ([0], [[[2, 4, 5, 3]], [[2, 4, 5, 3]]])], ())"
proof (intro conjI impI)
  assume "batch_type b = ''tokens'' \<and> length lens = length (max_lens b)"
  then show "Batch_add b pos lens =
        (if \<exists>i<length lens.
              max (max_lens b ! i) (lens ! i) * (int (length (Pos b)) + 1) > batch_size b
         then Inr (False, b)
         else Inr (True, b\<lparr> Pos := Pos b @ [pos], max_lens := map2 max (max_lens b) lens \<rparr>))"
    using Batch_add_tokens [of b lens pos] by simp
next
  show "Batch_add (Batch_reset \<lparr> batch_size = 4, batch_type = ''tokens'' \<rparr> 2) 1 [3, 3]
     = Inr (True, \<lparr> batch_size = 4, batch_type = ''tokens'', Pos = [1], max_lens = [3, 3] \<rparr>)"
    by code_simp
next
  show "Batch_add \<lparr> batch_size = 4, batch_type = ''tokens'', Pos = [1], max_lens = [3, 3] \<rparr> 0 [4, 4]
     = Inr (False, \<lparr> batch_size = 4, batch_type = ''tokens'', Pos = [1], max_lens = [3, 3] \<rparr>)"
    by code_simp
next
  show "Dataset_iter shuffle_id argsort_stable (ex_dataset 0 4 ''tokens'' 0) ()
     = Inr (ex_dataset 2 4 ''tokens'' 0,
            [([1], [[[2, 5, 3]], [[2, 5, 3]]]), ([0], [[[2, 4, 5, 3]], [[2, 4, 5, 3]]])], ())"
    by code_simp
qed

theorem Batch_add_tokens_rule_witness:
  "Batch_add \<lparr> batch_size = 12, batch_type = ''tokens'', Pos = [7], max_lens = [5, 2] \<rparr> 8 [3, 6]
     = Inr (True, \<lparr> batch_size = 12, batch_type = ''tokens'', Pos = [7, 8], max_lens = [5, 6] \<rparr>) \<and>
   Batch_add \<lparr> batch_size = 11, batch_type = ''tokens'', Pos = [7], max_lens = [5, 2] \<rparr> 8 [3, 6]
     = Inr (False, \<lparr> batch_size = 11, batch_type = ''tokens'', Pos = [7], max_lens = [5, 2] \<rparr>)"
  using Batch_add_tokens_rule
      [of "\<lparr> batch_size = 12, batch_type = ''tokens'', Pos = [7], max_lens = [5, 2] \<rparr>" "[3, 6]" 8]
    Batch_add_tokens_rule
      [of "\<lparr> batch_size = 11, batch_type = ''tokens'', Pos = [7], max_lens = [5, 2] \<rparr>" "[3, 6]" 8]
  by (simp add: less_Suc_eq numeral_2_eq_2 conj_disj_distribR ex_disj_distrib)

text \<open>
  Claim C3. Under the token policy with capacity \<open>T\<close>, every batch a pass yields is
  non-empty and satisfies on every side: (longest raw length in the batch + 2) times the
  number of its examples is at most \<open>T\<close>. No batch needs the exception the claim
  allows. A pass over a non-empty corpus with a non-negative shard size returns.
\<close>

theorem token_batches_within_capacity:
  assumes "parallel ds" and "ds_batch_type ds = ''tokens''"
    and "shuffle_ok shuffle" and "argsort_ok argsort"
  shows "(\<forall>ds' ys g'. Dataset_iter shuffle argsort ds g = Inr (ds', ys, g') \<longrightarrow>
            (\<forall>(B, idxs_all)\<in>set ys.
               B \<noteq> [] \<and> (\<forall>n<n_files ds. padded_size ds n B \<le> ds_batch_size ds))) \<and>
         (File_Line_Idx ds \<noteq> [] \<and> 0 < n_lines ds \<and> 0 \<le> shard_size ds \<longrightarrow>
            (\<exists>ds' ys g'. Dataset_iter shuffle argsort ds g = Inr (ds', ys, g')))"
proof (intro conjI allI impI)
  fix ds' ys g'
  assume "Dataset_iter shuffle argsort ds g = Inr (ds', ys, g')"
  from Dataset_iter_yields [OF assms(1) _ assms(3,4) this] assms(2)
  have "\<forall>B\<in>set (map fst ys). batch_ok ds B" by simp
  then show "\<forall>(B, idxs_all)\<in>set ys.
      B \<noteq> [] \<and> (\<forall>n<n_files ds. padded_size ds n B \<le> ds_batch_size ds)"
    using assms(2) by (auto simp: batch_ok_def)
next
  assume "File_Line_Idx ds \<noteq> [] \<and> 0 < n_lines ds \<and> 0 \<le> shard_size ds"
  then have ne: "File_Line_Idx ds \<noteq> []"
    and ss: "0 < shard_size ds \<or> (shard_size ds = 0 \<and> 0 < n_lines ds)"
    by auto
  from Dataset_iter_ok [OF assms(1) ne _ assms(3,4) ss, of g] assms(2)
  show "\<exists>ds' ys g'. Dataset_iter shuffle argsort ds g = Inr (ds', ys, g')" by blast
qed

lemma ex_run_tokens_5:
  "Dataset_iter shuffle_rev argsort_stable (ex_dataset 0 8 ''tokens'' 0) ()
     = Inr (ex_dataset 2 8 ''tokens'' 0,
            [([1, 0], [[[2, 5, 3], [2, 4, 5, 3]], [[2, 5, 3], [2, 4, 5, 3]]])], ())"
  by code_simp

theorem token_batches_within_capacity_witness:
  "parallel (ex_dataset 0 8 ''tokens'' 0) \<and> shuffle_ok shuffle_rev \<and> argsort_ok argsort_stable \<and>
   Dataset_iter shuffle_rev argsort_stable (ex_dataset 0 8 ''tokens'' 0) ()
     = Inr (ex_dataset 2 8 ''tokens'' 0,
            [([1, 0], [[[2, 5, 3], [2, 4, 5, 3]], [[2, 5, 3], [2, 4, 5, 3]]])], ()) \<and>
   padded_size (ex_dataset 0 8 ''tokens'' 0) 0 [1, 0] \<le> 8 \<and>
   padded_size (ex_dataset 0 8 ''tokens'' 0) 1 [1, 0] \<le> 8"
proof -
  let ?E = "ex_dataset 0 8 ''tokens'' 0"
  have t: "ds_batch_type ?E = ''tokens''" by (simp add: ex_dataset_def)
  from token_batches_within_capacity
    [OF ex_dataset_parallel t shuffle_rev_ok argsort_stable_ok, of "()"] ex_run_tokens_5
  have "\<forall>n<n_files ?E. padded_size ?E n [1, 0] \<le> ds_batch_size ?E" by simp
  moreover have "n_files ?E = 2" "ds_batch_size ?E = 8" by (simp_all add: ex_dataset_def n_files_def)
  ultimately have "padded_size ?E 0 [1, 0] \<le> 8 \<and> padded_size ?E 1 [1, 0] \<le> 8" by simp
  then show ?thesis
    using ex_dataset_parallel shuffle_rev_ok argsort_stable_ok ex_run_tokens_5 by simp
qed

section \<open>Claims on the sentence budget and the yielded positions\<close>

text \<open>
  Claim C5. Under the sentence policy with a capacity \<open>C \<ge> 0\<close>, \<^verbatim>\<open>add\<close> rejects
  exactly when the current size equals \<open>C\<close>, whatever the lengths passed, and every
  batch a pass yields holds at most \<open>C\<close> examples. A pass over a non-empty corpus with a
  non-negative shard size returns.
\<close>

theorem sentence_batches_within_capacity:
  assumes "parallel ds" and "ds_batch_type ds = ''sentences''" and "0 \<le> ds_batch_size ds"
    and "shuffle_ok shuffle" and "argsort_ok argsort"
  shows "(batch_type b = ''sentences'' \<longrightarrow>
            (int (length (Pos b)) = batch_size b \<longrightarrow> Batch_add b pos lens = Inr (False, b)) \<and>
            (int (length (Pos b)) \<noteq> batch_size b \<longrightarrow>
               (\<forall>b'. Batch_add b pos lens \<noteq> Inr (False, b')))) \<and>
         (\<forall>ds' ys g'. Dataset_iter shuffle argsort ds g = Inr (ds', ys, g') \<longrightarrow>
            (\<forall>(B, idxs_all)\<in>set ys. int (length B) \<le> ds_batch_size ds)) \<and>
         (File_Line_Idx ds \<noteq> [] \<and> 0 < n_lines ds \<and> 0 \<le> shard_size ds \<longrightarrow>
            (\<exists>ds' ys g'. Dataset_iter shuffle argsort ds g = Inr (ds', ys, g')))"
proof (intro conjI allI impI)
  assume "batch_type b = ''sentences''" and "int (length (Pos b)) = batch_size b"
  then show "Batch_add b pos lens = Inr (False, b)" by (simp add: Batch_add_def)
next
  fix b'
  assume "batch_type b = ''sentences''" and "int (length (Pos b)) \<noteq> batch_size b"
  then show "Batch_add b pos lens \<noteq> Inr (False, b')"
    by (simp add: Batch_add_def split: sum.splits)
next
  fix ds' ys g'
  assume "Dataset_iter shuffle argsort ds g = Inr (ds', ys, g')"
  from Dataset_iter_yields [OF assms(1) _ assms(4,5) this] assms(2)
  have "\<forall>B\<in>set (map fst ys). batch_ok ds B" by simp
  then show "\<forall>(B, idxs_all)\<in>set ys. int (length B) \<le> ds_batch_size ds"
    using assms(2,3) by (auto simp: batch_ok_def)
next
  assume "File_Line_Idx ds \<noteq> [] \<and> 0 < n_lines ds \<and> 0 \<le> shard_size ds"
  then have ne: "File_Line_Idx ds \<noteq> []"
    and ss: "0 < shard_size ds \<or> (shard_size ds = 0 \<and> 0 < n_lines ds)"
    by auto
  from Dataset_iter_ok [OF assms(1) ne _ assms(4,5) ss, of g] assms(2)
  show "\<exists>ds' ys g'. Dataset_iter shuffle argsort ds g = Inr (ds', ys, g')" by blast
qed

lemma ex_run_sentences_1:
  "Dataset_iter shuffle_rev argsort_reversing (ex_dataset 0 1 ''sentences'' 0) ()
     = Inr (ex_dataset 2 1 ''sentences'' 0,
            [([0], [[[2, 4, 5, 3]], [[2, 4, 5, 3]]]), ([1], [[[2, 5, 3]], [[2, 5, 3]]])], ())"
  by code_simp

theorem sentence_batches_within_capacity_witness:
  "parallel (ex_dataset 0 1 ''sentences'' 0) \<and> shuffle_ok shuffle_rev \<and>
   argsort_ok argsort_reversing \<and>
   Dataset_iter shuffle_rev argsort_reversing (ex_dataset 0 1 ''sentences'' 0) ()
     = Inr (ex_dataset 2 1 ''sentences'' 0,
            [([0], [[[2, 4, 5, 3]], [[2, 4, 5, 3]]]), ([1], [[[2, 5, 3]], [[2, 5, 3]]])], ()) \<and>
   int (length [0::nat]) \<le> 1 \<and> int (length [1::nat]) \<le> 1 \<and>
   Batch_add \<lparr> batch_size = 1, batch_type = ''sentences'', Pos = [1], max_lens = [3, 3] \<rparr> 0 [4, 4]
     = Inr (False, \<lparr> batch_size = 1, batch_type = ''sentences'', Pos = [1], max_lens = [3, 3] \<rparr>)"
proof -
  let ?E = "ex_dataset 0 1 ''sentences'' 0"
  let ?b = "\<lparr> batch_size = 1, batch_type = ''sentences'', Pos = [1], max_lens = [3, 3] \<rparr>"
  have t: "ds_batch_type ?E = ''sentences''" and c: "0 \<le> ds_batch_size ?E"
    by (simp_all add: ex_dataset_def)
  note w = sentence_batches_within_capacity
    [OF ex_dataset_parallel t c shuffle_rev_ok argsort_reversing_ok, of ?b 0 "[4, 4]" "()"]
  from w have "Batch_add ?b 0 [4, 4] = Inr (False, ?b)" by simp
  moreover from w ex_run_sentences_1
  have "int (length [0::nat]) \<le> ds_batch_size ?E \<and> int (length [1::nat]) \<le> ds_batch_size ?E"
    by simp
  ultimately show ?thesis
    using ex_dataset_parallel shuffle_rev_ok argsort_reversing_ok ex_run_sentences_1
    by (simp add: ex_dataset_def)
qed

text \<open>
  Claim C2 (corrected). For a non-empty corpus, one pass yields every position that the
  length filter keeps and that fits a batch of its own, each exactly once, and no other
  position: under the token policy a kept example whose padded length exceeds the
  capacity on some side is in no batch, under the sentence policy nothing is yielded
  when the capacity is zero.
\<close>

theorem yielded_positions:
  assumes "parallel ds" and "File_Line_Idx ds \<noteq> []" and "0 < n_lines ds"
    and "0 \<le> shard_size ds"
    and "ds_batch_type ds = ''sentences'' \<or> ds_batch_type ds = ''tokens''"
    and "shuffle_ok shuffle" and "argsort_ok argsort"
  shows "\<exists>ds' ys g'. Dataset_iter shuffle argsort ds g = Inr (ds', ys, g') \<and>
           mset (concat (map fst ys))
             = mset (filter (\<lambda>p. kept ds p \<and> fits ds p) [0..<n_lines ds]) \<and>
           distinct (concat (map fst ys)) \<and>
           set (concat (map fst ys)) = {p. p < n_lines ds \<and> kept ds p \<and> fits ds p}"
proof -
  have ss: "0 < shard_size ds \<or> (shard_size ds = 0 \<and> 0 < n_lines ds)"
    using assms(3,4) by linarith
  from Dataset_iter_ok [OF assms(1,2,5,6,7) ss, of g]
  obtain ds' ys g' where r: "Dataset_iter shuffle argsort ds g = Inr (ds', ys, g')"
    and m: "mset (concat (map fst ys))
            = mset (filter (\<lambda>p. kept ds p \<and> fits ds p) [0..<n_lines ds])"
    by blast
  have d: "distinct (concat (map fst ys))"
    using mset_eq_imp_distinct_iff [OF m] by simp
  have s: "set (concat (map fst ys)) = {p. p < n_lines ds \<and> kept ds p \<and> fits ds p}"
    using mset_eq_setD [OF m] by auto
  from r m d s show ?thesis by blast
qed

lemma ex_run_tokens_3_rev:
  "Dataset_iter shuffle_rev argsort_reversing (ex_dataset 0 3 ''tokens'' 0) ()
     = Inr (ex_dataset 2 3 ''tokens'' 0, [([1], [[[2, 5, 3]], [[2, 5, 3]]])], ())"
  by code_simp

theorem yielded_positions_witness:
  "parallel (ex_dataset 0 3 ''tokens'' 0) \<and> shuffle_ok shuffle_rev \<and>
   argsort_ok argsort_reversing \<and>
   set (concat (map fst [([1::nat], [[[2, 5, 3]], [[2, 5, 3 :: int]]])]))
     = {p. p < n_lines (ex_dataset 0 3 ''tokens'' 0) \<and> kept (ex_dataset 0 3 ''tokens'' 0) p \<and>
           fits (ex_dataset 0 3 ''tokens'' 0) p}"
proof -
  let ?E = "ex_dataset 0 3 ''tokens'' 0"
  have h: "File_Line_Idx ?E \<noteq> []" "0 < n_lines ?E" "0 \<le> shard_size ?E"
    "ds_batch_type ?E = ''sentences'' \<or> ds_batch_type ?E = ''tokens''"
    by (simp_all add: ex_dataset_def n_lines_def)
  from yielded_positions [OF ex_dataset_parallel h shuffle_rev_ok argsort_reversing_ok, of "()"]
    ex_run_tokens_3_rev
  have "set (concat (map fst [([1::nat], [[[2, 5, 3]], [[2, 5, 3 :: int]]])]))
     = {p. p < n_lines ?E \<and> kept ?E p \<and> fits ?E p}"
    by auto
  then show ?thesis
    using ex_dataset_parallel shuffle_rev_ok argsort_reversing_ok by simp
qed

text \<open>
  The claim as stated fails under the token policy with capacity 3: \<^verbatim>\<open>max_length\<close> is
  zero, so both positions pass the filter, but the pass yields position 1 only.
\<close>

theorem kept_position_not_yielded:
  "Dataset_iter shuffle_rev argsort_reversing (ex_dataset 0 3 ''tokens'' 0) ()
     = Inr (ex_dataset 2 3 ''tokens'' 0, [([1], [[[2, 5, 3]], [[2, 5, 3]]])], ()) \<and>
   kept (ex_dataset 0 3 ''tokens'' 0) 0 \<and> kept (ex_dataset 0 3 ''tokens'' 0) 1 \<and>
   n_lines (ex_dataset 0 3 ''tokens'' 0) = 2 \<and>
   mset (concat (map fst [([1::nat], [[[2, 5, 3]], [[2, 5, 3 :: int]]])])) \<noteq> mset [0, 1]"
  using ex_run_tokens_3_rev by (simp add: kept_def ex_dataset_def n_lines_def)

section \<open>Claim on oversized examples\<close>

text \<open>
  Claim C1 (corrected). Under the token policy an example whose padded length (raw
  length + 2) exceeds the capacity on some side is rejected by a freshly reset
  accumulator as well, the retry after the flush applying the same test; the loop goes
  on without it, and the example is in no batch that a pass yields.
\<close>

theorem oversized_example_discarded:
  assumes "parallel ds" and "ds_batch_type ds = ''tokens''"
    and "shuffle_ok shuffle" and "argsort_ok argsort"
    and "pos < n_lines ds" and "\<exists>n<n_files ds. ds_batch_size ds < int (raw_len ds n pos) + 2"
  shows "Batch_add
           (Batch_reset \<lparr> batch_size = ds_batch_size ds, batch_type = ds_batch_type ds \<rparr> (n_files ds))
           pos (map (\<lambda>l. int l + 2) (map (\<lambda>side. length (side ! pos)) (File_Line_Idx ds)))
         = Inr (False,
             Batch_reset \<lparr> batch_size = ds_batch_size ds, batch_type = ds_batch_type ds \<rparr> (n_files ds)) \<and>
         (\<forall>ds' ys g'. Dataset_iter shuffle argsort ds g = Inr (ds', ys, g') \<longrightarrow>
            pos \<notin> set (concat (map fst ys))) \<and>
         (File_Line_Idx ds \<noteq> [] \<and> 0 \<le> shard_size ds \<longrightarrow>
            (\<exists>ds' ys g'. Dataset_iter shuffle argsort ds g = Inr (ds', ys, g')))"
proof (intro conjI allI impI)
  have nf: "\<not> fits ds pos" using assms(6) fits_tokens_iff [OF assms(2), of pos] by (auto simp: not_le)
  let ?b = "Batch_reset \<lparr> batch_size = ds_batch_size ds, batch_type = ds_batch_type ds \<rparr> (n_files ds)"
  let ?L = "map (\<lambda>l. int l + 2) (map (\<lambda>side. length (side ! pos)) (File_Line_Idx ds))"
  have i: "acc_inv ds ?b" by (intro acc_inv_reset) simp_all
  have e: "Pos ?b = []" by (simp add: Batch_reset_def)
  from Batch_add_inv [OF i assms(5) refl] e nf
  show "Batch_add ?b pos ?L = Inr (False, ?b)" by auto
  {
    fix ds' ys g'
    assume "Dataset_iter shuffle argsort ds g = Inr (ds', ys, g')"
    from Dataset_iter_yields [OF assms(1) _ assms(3,4) this] assms(2) nf
    show "pos \<notin> set (concat (map fst ys))" by blast
  }
  assume "File_Line_Idx ds \<noteq> [] \<and> 0 \<le> shard_size ds"
  then have ne: "File_Line_Idx ds \<noteq> []"
    and ss: "0 < shard_size ds \<or> (shard_size ds = 0 \<and> 0 < n_lines ds)"
    using assms(5) by auto
  from Dataset_iter_ok [OF assms(1) ne _ assms(3,4) ss, of g] assms(2)
  show "\<exists>ds' ys g'. Dataset_iter shuffle argsort ds g = Inr (ds', ys, g')" by blast
qed

lemma ex_run_tokens_3:
  "Dataset_iter shuffle_id argsort_stable (ex_dataset 0 3 ''tokens'' 0) ()
     = Inr (ex_dataset 2 3 ''tokens'' 0, [([1], [[[2, 5, 3]], [[2, 5, 3]]])], ())"
  by code_simp

theorem oversized_example_discarded_witness:
  "parallel (ex_dataset 0 3 ''tokens'' 0) \<and> shuffle_ok shuffle_id \<and> argsort_ok argsort_stable \<and>
   ds_batch_size (ex_dataset 0 3 ''tokens'' 0) < int (raw_len (ex_dataset 0 3 ''tokens'' 0) 0 0) + 2 \<and>
   Batch_add (Batch_reset \<lparr> batch_size = 3, batch_type = ''tokens'' \<rparr> 2) 0 [4, 4]
     = Inr (False, Batch_reset \<lparr> batch_size = 3, batch_type = ''tokens'' \<rparr> 2) \<and>
   0 \<notin> set (concat (map fst [([1::nat], [[[2, 5, 3]], [[2, 5, 3 :: int]]])]))"
proof -
  let ?E = "ex_dataset 0 3 ''tokens'' 0"
  have t: "ds_batch_type ?E = ''tokens''" and p: "0 < n_lines ?E"
    and big: "ds_batch_size ?E < int (raw_len ?E 0 0) + 2" and nf: "0 < n_files ?E"
    by (simp_all add: ex_dataset_def n_lines_def n_files_def raw_len_def)
  from big nf have o: "\<exists>n<n_files ?E. ds_batch_size ?E < int (raw_len ?E n 0) + 2" by blast
  note w = oversized_example_discarded
    [OF ex_dataset_parallel t shuffle_id_ok argsort_stable_ok p o, of "()"]
  from w have "Batch_add (Batch_reset \<lparr> batch_size = 3, batch_type = ''tokens'' \<rparr> 2) 0 [4, 4]
     = Inr (False, Batch_reset \<lparr> batch_size = 3, batch_type = ''tokens'' \<rparr> 2)"
    by (simp add: ex_dataset_def n_files_def numeral_2_eq_2)
  moreover from w ex_run_tokens_3
  have "0 \<notin> set (concat (map fst [([1::nat], [[[2, 5, 3]], [[2, 5, 3 :: int]]])]))" by simp
  ultimately show ?thesis
    using ex_dataset_parallel shuffle_id_ok argsort_stable_ok big by simp
qed

text \<open>
  The claim as stated fails with capacity 3 on the scenario corpus: position 0 has the
  padded length 4, the packing loop ends with the single batch of position 1 and an
  empty accumulator, and the pass yields that batch only.
\<close>

theorem oversized_example_dropped:
  "Dataset_iter shuffle_id argsort_stable (ex_dataset 0 3 ''tokens'' 0) ()
     = Inr (ex_dataset 2 3 ''tokens'' 0, [([1], [[[2, 5, 3]], [[2, 5, 3]]])], ()) \<and>
   int (raw_len (ex_dataset 0 3 ''tokens'' 0) 0 0) + 2 = 4 \<and>
   ds_batch_size (ex_dataset 0 3 ''tokens'' 0) = 3 \<and>
   pack (ex_dataset 0 3 ''tokens'' 0) 2
     (Batch_reset \<lparr> batch_size = 3, batch_type = ''tokens'' \<rparr> 2, []) [1, 0]
     = Inr (Batch_reset \<lparr> batch_size = 3, batch_type = ''tokens'' \<rparr> 2, [[1]])"
proof (intro conjI)
  show "Dataset_iter shuffle_id argsort_stable (ex_dataset 0 3 ''tokens'' 0) ()
     = Inr (ex_dataset 2 3 ''tokens'' 0, [([1], [[[2, 5, 3]], [[2, 5, 3]]])], ())"
    by (rule ex_run_tokens_3)
  show "int (raw_len (ex_dataset 0 3 ''tokens'' 0) 0 0) + 2 = 4"
    by (simp add: raw_len_def ex_dataset_def)
  show "ds_batch_size (ex_dataset 0 3 ''tokens'' 0) = 3" by (simp add: ex_dataset_def)
  show "pack (ex_dataset 0 3 ''tokens'' 0) 2
     (Batch_reset \<lparr> batch_size = 3, batch_type = ''tokens'' \<rparr> 2, []) [1, 0]
     = Inr (Batch_reset \<lparr> batch_size = 3, batch_type = ''tokens'' \<rparr> 2, [[1]])"
    by code_simp
qed

section \<open>What the constructor and a pass establish\<close>

lemma read_files_Inr:
  "read_files fc vocs i ftxts ds0 = Inr ds \<Longrightarrow> i \<le> length vocs \<Longrightarrow>
     i + length ftxts \<le> length vocs \<and>
     File_Line_Idx ds
       = File_Line_Idx ds0
         @ map (\<lambda>(txt, voc). map (map (Vocab_tok_id voc)) txt) (zip ftxts (drop i vocs)) \<and>
     ds_idx_bos ds = ds_idx_bos ds0 @ map idx_bos (take (length ftxts) (drop i vocs)) \<and>
     ds_idx_eos ds = ds_idx_eos ds0 @ map idx_eos (take (length ftxts) (drop i vocs))"
proof (induction ftxts arbitrary: i ds0)
  case Nil
  then show ?case by simp
next
  case (Cons ftxt ftxts)
  from Cons.prems have i: "i < length vocs"
    by (auto simp: getitem_list_def split: if_splits)
  let ?voc = "vocs ! i"
  let ?ds1 = "ds0\<lparr> ds_idx_bos := ds_idx_bos ds0 @ [idx_bos ?voc],
                    ds_idx_eos := ds_idx_eos ds0 @ [idx_eos ?voc],
                    File_Line_Idx := File_Line_Idx ds0 @ [map (map (Vocab_tok_id ?voc)) ftxt] \<rparr>"
  from Cons.prems i have r: "read_files fc vocs (Suc i) ftxts ?ds1 = Inr ds"
    by (auto simp: getitem_list_def Let_def split: prod.splits if_splits)
  have d: "drop i vocs = ?voc # drop (Suc i) vocs" using i by (simp add: Cons_nth_drop_Suc)
  have "Suc i \<le> length vocs" using i by simp
  from Cons.IH [OF r this] show ?case by (simp add: d)
qed

lemma Dataset_init_Inr:
  assumes "Dataset_init fc ftxts vocs ss bs bt ml = Inr ds"
  shows "length ftxts \<le> length vocs"
    and "File_Line_Idx ds = map (\<lambda>(txt, voc). map (map (Vocab_tok_id voc)) txt) (zip ftxts vocs)"
    and "ds_idx_bos ds = map idx_bos (take (length ftxts) vocs)"
    and "ds_idx_eos ds = map idx_eos (take (length ftxts) vocs)"
  using read_files_Inr [OF assms [unfolded Dataset_init_def]] by simp_all

lemma mapM_e_nth:
  assumes "mapM_e f xs = Inr ys"
  shows "length ys = length xs" and "i < length xs \<Longrightarrow> f (xs ! i) = Inr (ys ! i)"
proof -
  from mapM_e_InrD [OF assms] have a: "list_all2 (\<lambda>x y. f x = Inr y) xs ys" .
  from list_all2_lengthD [OF a] show "length ys = length xs" by simp
  show "i < length xs \<Longrightarrow> f (xs ! i) = Inr (ys ! i)"
    using list_all2_nthD [OF a] by simp
qed

lemma yield_batchs_wrapped:
  assumes "yield_batchs ds nf batchs js = Inr ys" and "(B, I) \<in> set ys"
  shows "wrap_batch ds nf B = Inr I"
proof -
  let ?f = "\<lambda>i. case getitem_list batchs i of Inl e \<Rightarrow> Inl e
      | Inr batch \<Rightarrow> (case wrap_batch ds nf batch of Inl e \<Rightarrow> Inl e
                       | Inr idxs_all \<Rightarrow> Inr (batch, idxs_all))"
  from assms(1) have m: "mapM_e ?f js = Inr ys" by (simp add: yield_batchs_def)
  from assms(2) obtain k where k: "k < length ys" "ys ! k = (B, I)"
    by (auto simp: in_set_conv_nth)
  from mapM_e_nth [OF m] k have "?f (js ! k) = Inr (B, I)" by simp
  then show ?thesis by (auto split: sum.splits)
qed

lemma iter_shard_wrapped:
  assumes "iter_shard shuffle argsort ds nf g shard = Inr (ys, g')" and "(B, I) \<in> set ys"
  shows "wrap_batch ds nf B = Inr I"
  using assms yield_batchs_wrapped
  by (fastforce simp: iter_shard_def split: sum.splits prod.splits)

lemma iter_shards_wrapped:
  "iter_shards shuffle argsort ds nf g shards = Inr (ys, g') \<Longrightarrow> (B, I) \<in> set ys \<Longrightarrow>
   wrap_batch ds nf B = Inr I"
proof (induction shards arbitrary: g ys)
  case Nil
  then show ?case by simp
next
  case (Cons shard shards)
  from Cons.prems(1) obtain ys1 g1 zs where
    a: "iter_shard shuffle argsort ds nf g shard = Inr (ys1, g1)"
    and b: "iter_shards shuffle argsort ds nf g1 shards = Inr (zs, g')"
    and y: "ys = ys1 @ zs"
    by (auto split: sum.splits prod.splits)
  from Cons.prems(2) y consider "(B, I) \<in> set ys1" | "(B, I) \<in> set zs" by auto
  then show ?case
  proof cases
    case 1
    from iter_shard_wrapped [OF a 1] show ?thesis .
  next
    case 2
    from Cons.IH [OF b 2] show ?thesis .
  qed
qed

lemma wrap_line_shard_size [simp]:
  "wrap_line (ds\<lparr> shard_size := x \<rparr>) = wrap_line ds"
  by (simp add: wrap_line_def fun_eq_iff cong: sum.case_cong)

lemma wrap_batch_shard_size [simp]:
  "wrap_batch (ds\<lparr> shard_size := x \<rparr>) = wrap_batch ds"
  by (simp add: wrap_batch_def fun_eq_iff)

lemma Dataset_iter_wrapped:
  assumes "Dataset_iter shuffle argsort ds g = Inr (ds', ys, g')" and "(B, I) \<in> set ys"
  shows "wrap_batch ds (length (File_Line_Idx ds)) B = Inr I"
proof -
  from assms obtain ds1 g1 shards where
    "iter_shards shuffle argsort ds1 (length (File_Line_Idx ds)) g1 shards = Inr (ys, g')"
    and "ds1 = ds \<or> ds1 = ds\<lparr> shard_size := int (length (File_Line_Idx ds ! 0)) \<rparr>"
    by (auto simp: Dataset_iter_def Let_def split: if_splits prod.splits sum.splits)
  with iter_shards_wrapped [of shuffle argsort ds1 _ g1 shards ys g' B I] assms(2)
  show ?thesis by auto
qed

lemma wrap_batch_nth:
  assumes "wrap_batch ds nf B = Inr I" and "n < nf" and "j < length B"
  shows "length I = nf" and "length (I ! n) = length B"
    and "wrap_line ds n (B ! j) = Inr (I ! n ! j)"
proof -
  from assms(1) have m: "mapM_e (\<lambda>n. mapM_e (wrap_line ds n) B) [0..<nf] = Inr I"
    by (simp add: wrap_batch_def)
  from mapM_e_nth(1) [OF m] show "length I = nf" by simp
  from mapM_e_nth(2) [OF m, of n] assms(2)
  have r: "mapM_e (wrap_line ds n) B = Inr (I ! n)" by simp
  from mapM_e_nth(1) [OF r] show "length (I ! n) = length B" .
  from mapM_e_nth(2) [OF r assms(3)] show "wrap_line ds n (B ! j) = Inr (I ! n ! j)" .
qed

lemma wrap_line_Inr:
  assumes "wrap_line ds n pos = Inr s"
  shows "n < length (File_Line_Idx ds)" and "pos < length (File_Line_Idx ds ! n)"
    and "s = [ds_idx_bos ds ! n] @ File_Line_Idx ds ! n ! pos @ [ds_idx_eos ds ! n]"
  using assms
  by (auto simp: wrap_line_def line_at_def getitem_list_def split: sum.splits if_splits)

lemma Vocab_round_trip:
  assumes "Vocab_init lines = Inr v" and "Vocab_contains v (Tok t)"
  shows "Vocab_getitem v (Idx (Vocab_tok_id v t)) = Inr (Tok t)"
proof -
  from Vocab_init_Inr_fields [OF assms(1)] have v: "v = Vocab_fields lines" .
  from assms(2) obtain i where i: "dict_of_tokens lines t = Some i"
    by (auto simp: v Vocab_fields_def)
  from dict_of_tokens_Some [OF i] have b: "0 \<le> i" "i < int (length lines)" "lines ! nat i = t"
    by auto
  have "getitem_int lines i = Inr t" using b by (simp add: getitem_int_def)
  then show ?thesis using i by (simp add: v Vocab_fields_def Vocab_tok_id_def)
qed

section \<open>Claim on the yielded id sequences\<close>

lemma read_files_parallel:
  "read_files fc vocs i ftxts ds0 = Inr ds \<Longrightarrow> parallel ds0 \<Longrightarrow> parallel ds"
proof (induction ftxts arbitrary: i ds0)
  case Nil
  then show ?case by simp
next
  case (Cons ftxt ftxts)
  from Cons.prems(1) have i: "i < length vocs"
    by (auto simp: getitem_list_def split: if_splits)
  let ?voc = "vocs ! i"
  let ?L = "map (map (Vocab_tok_id ?voc)) ftxt"
  let ?ds1 = "ds0\<lparr> ds_idx_bos := ds_idx_bos ds0 @ [idx_bos ?voc],
                    ds_idx_eos := ds_idx_eos ds0 @ [idx_eos ?voc],
                    File_Line_Idx := File_Line_Idx ds0 @ [?L] \<rparr>"
  from Cons.prems(1) i have r: "read_files fc vocs (Suc i) ftxts ?ds1 = Inr ds"
    and a: "length ((File_Line_Idx ds0 @ [?L]) ! 0) = length ?L"
    by (auto simp: getitem_list_def Let_def split: prod.splits if_splits)
  have "parallel ?ds1"
  proof (cases "File_Line_Idx ds0 = []")
    case True
    with Cons.prems(2) show ?thesis by (simp add: parallel_def n_files_def n_lines_def)
  next
    case False
    then have "(File_Line_Idx ds0 @ [?L]) ! 0 = File_Line_Idx ds0 ! 0"
      by (simp add: nth_append)
    with a Cons.prems(2) show ?thesis
      by (simp add: parallel_def n_files_def n_lines_def)
  qed
  from Cons.IH [OF r this] show ?case .
qed

text \<open>
  Every dataset that \<^verbatim>\<open>__init__\<close> returns satisfies \<open>parallel\<close>: the hypothesis of the
  theorems on a pass holds of every constructed engine.
\<close>

lemma Dataset_init_parallel:
  assumes "Dataset_init fc ftxts vocs ss bs bt ml = Inr ds"
  shows "parallel ds"
  using read_files_parallel [OF assms [unfolded Dataset_init_def]]
  by (simp add: parallel_def n_files_def)

text \<open>
  Claim C9. In every batch a pass yields on a constructed dataset, the sequence of
  example \<open>j\<close> on side \<open>n\<close> starts with the begin id and ends with the end id of
  that side's vocabulary, and without the two, mapped back id by id with
  \<^verbatim>\<open>__getitem__\<close>, it gives the tokens of the line at every place whose token is in the
  vocabulary.
\<close>

theorem yielded_sequences_round_trip:
  assumes "Dataset_init flatten_count ftxts vocs ss bs bt ml = Inr ds"
    and "\<forall>n<length ftxts. \<exists>lines. Vocab_init lines = Inr (vocs ! n)"
    and "Dataset_iter shuffle argsort ds g = Inr (ds', ys, g')"
    and "(B, idxs_all) \<in> set ys" and "n < length ftxts" and "j < length B"
  shows "length idxs_all = length ftxts \<and> length (idxs_all ! n) = length B \<and>
         B ! j < length (ftxts ! n) \<and>
         hd (idxs_all ! n ! j) = idx_bos (vocs ! n) \<and>
         last (idxs_all ! n ! j) = idx_eos (vocs ! n) \<and>
         list_all2
           (\<lambda>i t. Vocab_contains (vocs ! n) (Tok t) \<longrightarrow>
                    Vocab_getitem (vocs ! n) (Idx i) = Inr (Tok t))
           (butlast (tl (idxs_all ! n ! j))) (ftxts ! n ! (B ! j))"
proof -
  let ?v = "vocs ! n"
  note init = Dataset_init_Inr [OF assms(1)]
  have lenF: "length (File_Line_Idx ds) = length ftxts" using init(1,2) by simp
  have Fn: "File_Line_Idx ds ! n = map (map (Vocab_tok_id ?v)) (ftxts ! n)"
    using init(1,2) assms(5) by simp
  have bos: "ds_idx_bos ds ! n = idx_bos ?v" and eos: "ds_idx_eos ds ! n = idx_eos ?v"
    using init(1,3,4) assms(5) by simp_all
  from Dataset_iter_wrapped [OF assms(3,4)]
  have w: "wrap_batch ds (length ftxts) B = Inr idxs_all" by (simp add: lenF)
  note nth = wrap_batch_nth [OF w assms(5,6)]
  note line = wrap_line_Inr [OF nth(3)]
  from line(2) have pos: "B ! j < length (ftxts ! n)" by (simp add: Fn)
  let ?toks = "ftxts ! n ! (B ! j)"
  have s: "idxs_all ! n ! j = [idx_bos ?v] @ map (Vocab_tok_id ?v) ?toks @ [idx_eos ?v]"
    using line(3) pos by (simp add: Fn bos eos)
  have inner: "butlast (tl (idxs_all ! n ! j)) = map (Vocab_tok_id ?v) ?toks"
    by (simp add: s butlast_append)
  from assms(2,5) obtain lines where v: "Vocab_init lines = Inr ?v" by blast
  have rt: "list_all2
      (\<lambda>i t. Vocab_contains ?v (Tok t) \<longrightarrow> Vocab_getitem ?v (Idx i) = Inr (Tok t))
      (map (Vocab_tok_id ?v) ?toks) ?toks"
    using Vocab_round_trip [OF v] by (simp add: list_all2_conv_all_nth)
  show ?thesis using nth(1,2) pos rt by (simp add: s inner [unfolded s])
qed

lemma ex_Vocab_init:
  "Vocab_init ex_lines_src = Inr (Vocab_fields ex_lines_src)"
  "Vocab_init ex_lines_tgt = Inr (Vocab_fields ex_lines_tgt)"
  by (simp_all add: Vocab_init_def assert_marker_def Vocab_fields_def dict_of_tokens_def
      ex_lines_src_def ex_lines_tgt_def)

lemma ex_Dataset_init:
  "Dataset_init ex_flatten_count ex_ftxts [Vocab_fields ex_lines_src, Vocab_fields ex_lines_tgt]
     0 10 ''sentences'' 0
   = Inr (ex_dataset 0 10 ''sentences'' 0)"
  by code_simp

lemma ex_run_sentences_10:
  "Dataset_iter shuffle_id argsort_stable (ex_dataset 0 10 ''sentences'' 0) ()
     = Inr (ex_dataset 2 10 ''sentences'' 0,
            [([1, 0], [[[2, 5, 3], [2, 4, 5, 3]], [[2, 5, 3], [2, 4, 5, 3]]])], ())"
  by code_simp

theorem yielded_sequences_round_trip_witness:
  "Dataset_init ex_flatten_count ex_ftxts [Vocab_fields ex_lines_src, Vocab_fields ex_lines_tgt]
     0 10 ''sentences'' 0
   = Inr (ex_dataset 0 10 ''sentences'' 0) \<and>
   Dataset_iter shuffle_id argsort_stable (ex_dataset 0 10 ''sentences'' 0) ()
     = Inr (ex_dataset 2 10 ''sentences'' 0,
            [([1, 0], [[[2, 5, 3], [2, 4, 5, 3]], [[2, 5, 3], [2, 4, 5, 3]]])], ()) \<and>
   hd [2, 4, 5, 3] = idx_bos (Vocab_fields ex_lines_src) \<and>
   last [2, 4, 5, 3] = idx_eos (Vocab_fields ex_lines_src) \<and>
   Vocab_getitem (Vocab_fields ex_lines_src) (Idx 4) = Inr (Tok ''a'') \<and>
   Vocab_getitem (Vocab_fields ex_lines_src) (Idx 5) = Inr (Tok ''b'')"
proof -
  let ?vocs = "[Vocab_fields ex_lines_src, Vocab_fields ex_lines_tgt]"
  have v: "\<forall>n<length ex_ftxts. \<exists>lines. Vocab_init lines = Inr (?vocs ! n)"
    using ex_Vocab_init by (auto simp: ex_ftxts_def less_Suc_eq numeral_2_eq_2)
  have m: "([1, 0], [[[2, 5, 3], [2, 4, 5, 3]], [[2, 5, 3], [2, 4, 5, 3]]])
      \<in> set [([1, 0 :: nat], [[[2, 5, 3], [2, 4, 5, 3 :: int]], [[2, 5, 3], [2, 4, 5, 3]]])]"
    by simp
  have n: "0 < length ex_ftxts" and j: "1 < length [1, 0 :: nat]" by (simp_all add: ex_ftxts_def)
  have c: "Vocab_contains (Vocab_fields ex_lines_src) (Tok ''a'')"
    "Vocab_contains (Vocab_fields ex_lines_src) (Tok ''b'')"
    by (simp_all add: Vocab_fields_def dict_of_tokens_def ex_lines_src_def)
  from yielded_sequences_round_trip [OF ex_Dataset_init v ex_run_sentences_10 m n j] c
  show ?thesis
    using ex_Dataset_init ex_run_sentences_10 by (simp add: ex_ftxts_def)
qed

section \<open>Claim on the empty corpus\<close>




end
